theory Spec2Isabelle
  imports Main "HOL-Library.Word"
begin

section \<open>The AT command front end of the radio firmware (Firmware/radio/at.c)\<close>

text \<open>
  The module keeps its state in file-level variables. They are collected in one record
  that every operation takes and returns. Bytes and counters are machine words of the
  width the C declarations give them.
\<close>

type_synonym u8 = "8 word"
type_synonym u16 = "16 word"
type_synonym u32 = "32 word"

subsection \<open>Collaborators and output\<close>

text \<open>
  Functions of other modules that at.c calls. A call is recorded with its arguments; what
  it returns, and how it changes the rest of the firmware, is given by the environment.
\<close>

datatype call =
    Param_get u8
  | Param_set u8 u32
  | Param_print u8
  | Param_default
  | Param_save
  | Tdm_remote_at u16
  | Tdm_report_timing
  | Tdm_show_rssi
  | Tdm_state_sync
  | Pins_user_get_io u8
  | Pins_user_get_value u8
  | Pins_user_get_adc u8
  | Pins_user_set_io u8 u32
  | Pins_user_set_value u8 u8
  | Calibration_get u8
  | Calibration_set u8 u8
  | Calibration_lock
  | Radio_set_diversity bool

text \<open>
  What the module sends to the host and to the hardware, in order: single characters
  (putchar), one constructor for each printf format of the file (the leading u16 is
  the node id printed in brackets), the special function registers it writes, and the
  collaborator calls with the value each returned.
\<close>

datatype event =
    Putchar u8
  | Print_OK u16
  | Print_ERROR u16
  | Print_banner u16
  | Print_version u16
  | Print_num u16 u32
  | Print_sync_base u16
  | Print_sync u16 u32
  | Print_pin u16 u8
  | Print_output
  | Print_input
  | Print_val u32
  | Print_adc u16 u32
  | Print_cal u32
  | Watchdog bool
  | Set_PCA0CPH0 u8
  | Set_RSTSRC
  | Read_code_fc00
  | Called call u32

record 'w at_state =
  at_cmd :: "u8 list"
  at_cmd_len :: u8
  idx :: u8
  at_mode_active :: bool
  at_cmd_ready :: bool
  at_testmode :: u8
  at_plus_state :: u8
  at_plus_counter :: u8
  console :: "event list"
  world :: 'w

text \<open>
  The constants, build options and globals that radio.h and the other headers define, and
  the behaviour of the collaborators: \<open>collab c w\<close> is the value the call \<open>c\<close> returns
  in the world \<open>w\<close> (a C \<open>bool\<close> is nonzero for true) and the world after it.
\<close>

record 'w env =
  AT_CMD_MAXLEN :: nat
  PARAM_MAX :: nat
  PIN_MAX :: nat
  PIN_INPUT :: u32
  PIN_OUTPUT :: u32
  AT_TEST_RSSI :: u8
  AT_TEST_TDM :: u8
  BOARD_ID :: u32
  BOARD_rfd900a :: bool
  BOARD_RFD900A :: bool
  WATCH_DOG_ENABLE :: bool
  nodeId :: "'w \<Rightarrow> u16"
  g_board_frequency :: "'w \<Rightarrow> u32"
  g_board_bl_version :: "'w \<Rightarrow> u32"
  collab :: "call \<Rightarrow> 'w \<Rightarrow> u32 \<times> 'w"

text \<open>
  How an operation ends: it returns, it enters one of the two deliberate endless loops
  (software reset, forced flash error), it reads or writes outside \<open>at_cmd\<close> (undefined
  in C), or a loop of its own never ends.
\<close>

datatype fault = ReadOOB | WriteOOB

datatype 'a outcome = Returns 'a | Halts 'a | Faults fault | Diverges

definition emit :: "event \<Rightarrow> 'w at_state \<Rightarrow> 'w at_state" where
  "emit e s = s\<lparr>console := console s @ [e]\<rparr>"

definition rd :: "u8 list \<Rightarrow> nat \<Rightarrow> u8 option" where
  "rd buf i = (if i < length buf then Some (buf ! i) else None)"

definition wr :: "u8 list \<Rightarrow> nat \<Rightarrow> u8 \<Rightarrow> u8 list option" where
  "wr buf i v = (if i < length buf then Some (buf[i := v]) else None)"

subsection \<open>The C library's character classes (C locale)\<close>

definition isprint :: "u8 \<Rightarrow> bool" where
  "isprint c = (0x20 \<le> c \<and> c \<le> 0x7E)"

definition isdigit :: "u8 \<Rightarrow> bool" where
  "isdigit c = (0x30 \<le> c \<and> c \<le> 0x39)"

definition toupper :: "u8 \<Rightarrow> u8" where
  "toupper c = (if 0x61 \<le> c \<and> c \<le> 0x7A then c - 0x20 else c)"

subsection \<open>The +++ detector and its timer\<close>

definition ATP_WAIT_FOR_IDLE :: u8 where "ATP_WAIT_FOR_IDLE = 0"
definition ATP_WAIT_FOR_PLUS1 :: u8 where "ATP_WAIT_FOR_PLUS1 = 1"
definition ATP_WAIT_FOR_PLUS2 :: u8 where "ATP_WAIT_FOR_PLUS2 = 2"
definition ATP_WAIT_FOR_PLUS3 :: u8 where "ATP_WAIT_FOR_PLUS3 = 3"
definition ATP_WAIT_FOR_ENABLE :: u8 where "ATP_WAIT_FOR_ENABLE = 4"
definition ATP_COUNT_1S :: u8 where "ATP_COUNT_1S = 100"

text \<open>The first statement of \<open>at_plus_detector\<close>: a byte other than '+' (0x2B) resets the state.\<close>

definition plus_reset :: "u8 \<Rightarrow> 'w at_state \<Rightarrow> 'w at_state" where
  "plus_reset c s = (if c \<noteq> 0x2B then s\<lparr>at_plus_state := ATP_WAIT_FOR_IDLE\<rparr> else s)"

text \<open>The switch of \<open>at_plus_detector\<close>; its default case falls through to the counter reset.\<close>

definition plus_switch :: "'w at_state \<Rightarrow> 'w at_state" where
  "plus_switch s =
     (if at_plus_state s = ATP_WAIT_FOR_PLUS1 \<or> at_plus_state s = ATP_WAIT_FOR_PLUS2
        then s\<lparr>at_plus_state := at_plus_state s + 1\<rparr>
      else if at_plus_state s = ATP_WAIT_FOR_PLUS3
        then s\<lparr>at_plus_state := ATP_WAIT_FOR_ENABLE, at_plus_counter := ATP_COUNT_1S\<rparr>
      else if at_plus_state s = ATP_WAIT_FOR_IDLE \<or> at_plus_state s = ATP_WAIT_FOR_ENABLE
        then s\<lparr>at_plus_counter := ATP_COUNT_1S\<rparr>
      else s\<lparr>at_plus_state := ATP_WAIT_FOR_IDLE, at_plus_counter := ATP_COUNT_1S\<rparr>)"

definition at_plus_detector :: "u8 \<Rightarrow> 'w at_state \<Rightarrow> 'w at_state" where
  "at_plus_detector c s = plus_switch (plus_reset c s)"

text \<open>
  The three stores of the synthesized command, in the order of the source; a store outside
  the array is a fault.
\<close>

definition stuff_AT :: "u8 list \<Rightarrow> u8 list option" where
  "stuff_AT buf =
     (case wr buf 0 0x41 of None \<Rightarrow> None
      | Some b0 \<Rightarrow> (case wr b0 1 0x54 of None \<Rightarrow> None
      | Some b1 \<Rightarrow> wr b1 2 0))"

definition at_timer :: "'w env \<Rightarrow> 'w at_state \<Rightarrow> 'w at_state outcome" where
  "at_timer ev s =
     (if at_plus_counter s > 0 then
        (let s1 = s\<lparr>at_plus_counter := at_plus_counter s - 1\<rparr> in
         if at_plus_counter s1 = 0 then
           (if at_plus_state s1 = ATP_WAIT_FOR_IDLE
              then Returns (s1\<lparr>at_plus_state := ATP_WAIT_FOR_PLUS1\<rparr>)
            else if at_plus_state s1 = ATP_WAIT_FOR_ENABLE then
              (let s2 = (if BOARD_RFD900A ev \<and> WATCH_DOG_ENABLE ev
                           then emit (Watchdog False) s1 else s1);
                   s3 = s2\<lparr>at_mode_active := True, at_plus_state := ATP_WAIT_FOR_IDLE\<rparr>
               in case stuff_AT (at_cmd s3) of
                    None \<Rightarrow> Faults WriteOOB
                  | Some b \<Rightarrow> Returns (s3\<lparr>at_cmd := b, at_cmd_len := 2, at_cmd_ready := True\<rparr>))
            else Returns s1)
         else Returns s1)
      else Returns s)"

text \<open>\<open>n\<close> consecutive timer ticks with no byte received between them.\<close>

fun ticks :: "'w env \<Rightarrow> nat \<Rightarrow> 'w at_state \<Rightarrow> 'w at_state outcome" where
  "ticks ev 0 s = Returns s"
| "ticks ev (Suc n) s =
     (case at_timer ev s of
        Returns s' \<Rightarrow> ticks ev n s'
      | Halts s' \<Rightarrow> Halts s'
      | Faults f \<Rightarrow> Faults f
      | Diverges \<Rightarrow> Diverges)"

text \<open>What holds of state and counter in every reachable state.\<close>

definition plus_inv :: "'w at_state \<Rightarrow> bool" where
  "plus_inv s =
     (if at_plus_state s = ATP_WAIT_FOR_IDLE then at_plus_counter s \<le> 100
      else if at_plus_state s = ATP_WAIT_FOR_ENABLE
        then at_plus_counter s \<noteq> 0 \<and> at_plus_counter s \<le> 100
      else (at_plus_state s = ATP_WAIT_FOR_PLUS1 \<or> at_plus_state s = ATP_WAIT_FOR_PLUS2 \<or>
            at_plus_state s = ATP_WAIT_FOR_PLUS3) \<and> at_plus_counter s = 0)"

text \<open>The state after the timer has switched to command mode from the armed state \<open>s\<close>.\<close>

definition enter_command_mode :: "'w env \<Rightarrow> 'w at_state \<Rightarrow> 'w at_state" where
  "enter_command_mode ev s =
     (if BOARD_RFD900A ev \<and> WATCH_DOG_ENABLE ev then emit (Watchdog False) s else s)
       \<lparr>at_cmd := (at_cmd s)[0 := 0x41, 1 := 0x54, 2 := 0], at_cmd_len := 2,
        at_mode_active := True, at_cmd_ready := True,
        at_plus_state := ATP_WAIT_FOR_IDLE, at_plus_counter := 0\<rparr>"

text \<open>
  The escape scenario: \<open>n0\<close> ticks of silence, three '+' bytes one after the other, then
  \<open>n3\<close> ticks of silence.
\<close>

definition plus3 :: "'w at_state \<Rightarrow> 'w at_state" where
  "plus3 s = at_plus_detector 0x2B (at_plus_detector 0x2B (at_plus_detector 0x2B s))"

definition escape_sequence :: "'w env \<Rightarrow> nat \<Rightarrow> nat \<Rightarrow> 'w at_state \<Rightarrow> 'w at_state outcome" where
  "escape_sequence ev n0 n3 s =
     (case ticks ev n0 s of
        Returns s1 \<Rightarrow> ticks ev n3 (plus3 s1)
      | Halts s1 \<Rightarrow> Halts s1
      | Faults f \<Rightarrow> Faults f
      | Diverges \<Rightarrow> Diverges)"

text \<open>Sequencing of two operations: the second runs on the state the first returns.\<close>

definition and_then :: "'s outcome \<Rightarrow> ('s \<Rightarrow> 's outcome) \<Rightarrow> 's outcome" where
  "and_then r k =
     (case r of
        Returns s \<Rightarrow> k s
      | Halts s \<Rightarrow> Halts s
      | Faults f \<Rightarrow> Faults f
      | Diverges \<Rightarrow> Diverges)"

text \<open>
  The same scenario with the timer running between the bytes: each '+' is followed by the
  number of ticks that pass before the next byte, or after the last one. With
  \<open>escape_with_gaps\<close> the silence before the first '+' lasts \<open>n0\<close> ticks, \<open>g1\<close> and \<open>g2\<close>
  ticks pass between the pluses and \<open>n3\<close> after the third.
\<close>

fun pluses :: "'w env \<Rightarrow> nat list \<Rightarrow> 'w at_state \<Rightarrow> 'w at_state outcome" where
  "pluses ev [] s = Returns s"
| "pluses ev (g # gs) s = and_then (ticks ev g (at_plus_detector 0x2B s)) (pluses ev gs)"

definition escape_with_gaps ::
  "'w env \<Rightarrow> nat \<Rightarrow> nat \<Rightarrow> nat \<Rightarrow> nat \<Rightarrow> 'w at_state \<Rightarrow> 'w at_state outcome" where
  "escape_with_gaps ev n0 g1 g2 n3 s = and_then (ticks ev n0 s) (pluses ev [g1, g2, n3])"

text \<open>
  How many '+' bytes a state is away from the armed state at least: the idle state needs
  the timeout and then three, and an unknown state is made idle by the next byte.
\<close>

definition pluses_needed :: "'w at_state \<Rightarrow> nat" where
  "pluses_needed s =
     (if at_plus_state s = ATP_WAIT_FOR_ENABLE then 0
      else if at_plus_state s = ATP_WAIT_FOR_PLUS3 then 1
      else if at_plus_state s = ATP_WAIT_FOR_PLUS2 then 2
      else 3)"

text \<open>
  The states the detector and the timer can reach from the initial configuration (state
  idle, counter at the full second), whatever bytes arrive and whenever the timer ticks.
\<close>

inductive reach :: "'w env \<Rightarrow> 'w at_state \<Rightarrow> bool" for ev :: "'w env" where
  reach_init: "at_plus_state s = ATP_WAIT_FOR_IDLE \<Longrightarrow> at_plus_counter s = ATP_COUNT_1S \<Longrightarrow> reach ev s"
| reach_byte: "reach ev s \<Longrightarrow> reach ev (at_plus_detector c s)"
| reach_tick: "reach ev s \<Longrightarrow> at_timer ev s = Returns s' \<Longrightarrow> reach ev s'"

subsection \<open>The line editor\<close>

text \<open>
  \<open>at_input\<close>: carriage return is 0x0D, backspace 0x08, delete 0x7F. The length is
  compared with \<open>AT_CMD_MAXLEN\<close> as an integer; it is stored in eight bits.
\<close>

definition at_input :: "'w env \<Rightarrow> u8 \<Rightarrow> 'w at_state \<Rightarrow> 'w at_state outcome" where
  "at_input ev c s =
     (if c = 0x0D then
        (let s1 = emit (Putchar 0x0A) s in
         case wr (at_cmd s1) (unat (at_cmd_len s1)) 0 of
           None \<Rightarrow> Faults WriteOOB
         | Some b \<Rightarrow> Returns (s1\<lparr>at_cmd := b, at_cmd_ready := True\<rparr>))
      else if c = 0x08 \<or> c = 0x7F then
        (if at_cmd_len s > 0
           then Returns ((emit (Putchar 0x08) (emit (Putchar 0x20) (emit (Putchar 0x08) s)))
                           \<lparr>at_cmd_len := at_cmd_len s - 1\<rparr>)
         else Returns s)
      else if unat (at_cmd_len s) < AT_CMD_MAXLEN ev then
        (if isprint c then
           (let c' = toupper c in
            case wr (at_cmd s) (unat (at_cmd_len s)) c' of
              None \<Rightarrow> Faults WriteOOB
            | Some b \<Rightarrow> Returns (emit (Putchar c') (s\<lparr>at_cmd := b, at_cmd_len := at_cmd_len s + 1\<rparr>)))
         else Returns s)
      else Returns (s\<lparr>at_mode_active := False, at_cmd_len := 0\<rparr>))"

subsection \<open>The numeric lexer\<close>

text \<open>
  The loop of \<open>at_parse_number\<close>. The cursor is eight bits wide and wraps; the value is
  32 bits wide and wraps. The loop has no bound of its own: \<open>None\<close> is the run that never
  ends, \<open>Some (Inl ReadOOB)\<close> the run that leaves the array.
\<close>

partial_function (option) parse_loop :: "u8 list \<Rightarrow> u8 \<Rightarrow> u32 \<Rightarrow> (fault + u32 \<times> u8) option" where
  "parse_loop buf i reg =
     (case rd buf (unat i) of
        None \<Rightarrow> Some (Inl ReadOOB)
      | Some c \<Rightarrow>
          if \<not> isdigit c then Some (Inr (reg, i))
          else parse_loop buf (i + 1) (reg * 10 + ucast (c - 0x30)))"

declare parse_loop.simps [code]

definition at_parse_number :: "'w at_state \<Rightarrow> (u32 \<times> 'w at_state) outcome" where
  "at_parse_number s =
     (case parse_loop (at_cmd s) (idx s) 0 of
        None \<Rightarrow> Diverges
      | Some (Inl f) \<Rightarrow> Faults f
      | Some (Inr (reg, i)) \<Rightarrow> Returns (reg, s\<lparr>idx := i\<rparr>))"

text \<open>One round of the loop on the value: \<open>reg = (reg * 10) + (c - '0')\<close>.\<close>

definition step32 :: "u32 \<Rightarrow> u8 \<Rightarrow> u32" where
  "step32 a d = a * 10 + ucast (d - 0x30)"

text \<open>
  What the specification says the lexer computes: the longest run of digit characters that
  starts at the cursor, and the number it denotes in base ten.
\<close>

definition digit_run :: "u8 list \<Rightarrow> nat \<Rightarrow> u8 list" where
  "digit_run buf i = takeWhile isdigit (drop i buf)"

definition decimal_value :: "u8 list \<Rightarrow> nat" where
  "decimal_value ds = foldl (\<lambda>a d. 10 * a + (unat d - 48)) 0 ds"

subsection \<open>The command handlers\<close>

text \<open>Sequencing: continue with the number parsed, or with the character read.\<close>

definition on_number :: "(u32 \<times> 's) outcome \<Rightarrow> (u32 \<Rightarrow> 's \<Rightarrow> 's outcome) \<Rightarrow> 's outcome" where
  "on_number r k =
     (case r of
        Returns (n, s) \<Rightarrow> k n s
      | Halts (n, s) \<Rightarrow> Halts s
      | Faults f \<Rightarrow> Faults f
      | Diverges \<Rightarrow> Diverges)"

definition on_char :: "u8 option \<Rightarrow> (u8 \<Rightarrow> 's outcome) \<Rightarrow> 's outcome" where
  "on_char r k = (case r of None \<Rightarrow> Faults ReadOOB | Some c \<Rightarrow> k c)"

definition call_collab :: "'w env \<Rightarrow> call \<Rightarrow> 'w at_state \<Rightarrow> u32 \<times> 'w at_state" where
  "call_collab ev c s =
     (let (r, w') = collab ev c (world s) in (r, emit (Called c r) (s\<lparr>world := w'\<rparr>)))"

definition at_ok :: "'w env \<Rightarrow> 'w at_state \<Rightarrow> 'w at_state" where
  "at_ok ev s = emit (Print_OK (nodeId ev (world s))) s"

definition at_error :: "'w env \<Rightarrow> 'w at_state \<Rightarrow> 'w at_state" where
  "at_error ev s = emit (Print_ERROR (nodeId ev (world s))) s"

text \<open>
  \<open>!strcmp(at_cmd + i, lit)\<close> for a literal without NUL: the bytes are compared in turn
  up to the first difference.
\<close>

fun str_eq :: "u8 list \<Rightarrow> nat \<Rightarrow> u8 list \<Rightarrow> bool option" where
  "str_eq buf i [] = (case rd buf i of None \<Rightarrow> None | Some c \<Rightarrow> Some (c = 0))"
| "str_eq buf i (x # xs) =
     (case rd buf i of
        None \<Rightarrow> None
      | Some c \<Rightarrow> if c = x then str_eq buf (Suc i) xs else Some False)"

text \<open>
  The loops \<open>for (id = 0; id < MAX; id++)\<close> of \<open>at_i\<close> and \<open>at_p\<close> count in eight bits:
  with a bound above 255 the counter wraps and the loop never ends.
\<close>

definition param_print_all :: "'w env \<Rightarrow> 'w at_state \<Rightarrow> 'w at_state outcome" where
  "param_print_all ev s =
     (if 256 \<le> PARAM_MAX ev then Diverges
      else Returns (fold (\<lambda>i t. snd (call_collab ev (Param_print (of_nat i)) t)) [0..<PARAM_MAX ev] s))"

definition at_i :: "'w env \<Rightarrow> 'w at_state \<Rightarrow> 'w at_state outcome" where
  "at_i ev s =
     on_char (rd (at_cmd s) 3) (\<lambda>c.
       if c = 0 \<or> c = 0x30 then Returns (emit (Print_banner (nodeId ev (world s))) s)
       else if c = 0x31 then Returns (emit (Print_version (nodeId ev (world s))) s)
       else if c = 0x32 then Returns (emit (Print_num (nodeId ev (world s)) (BOARD_ID ev)) s)
       else if c = 0x33
         then Returns (emit (Print_num (nodeId ev (world s)) (g_board_frequency ev (world s))) s)
       else if c = 0x34
         then Returns (emit (Print_num (nodeId ev (world s)) (g_board_bl_version ev (world s))) s)
       else if c = 0x35 then param_print_all ev s
       else if c = 0x36 then Returns (snd (call_collab ev Tdm_report_timing s))
       else if c = 0x37 then Returns (snd (call_collab ev Tdm_show_rssi s))
       else if c = 0x38 then
         (if nodeId ev (world s) = 0 then Returns (emit (Print_sync_base (nodeId ev (world s))) s)
          else (let (v, s1) = call_collab ev Tdm_state_sync s
                in Returns (emit (Print_sync (nodeId ev (world s1)) v) s1)))
       else Returns (at_error ev s))"

definition at_s :: "'w env \<Rightarrow> 'w at_state \<Rightarrow> 'w at_state outcome" where
  "at_s ev s =
     on_number (at_parse_number (s\<lparr>idx := 3\<rparr>)) (\<lambda>n s1.
       let sreg = (ucast n :: u8) in
       if PARAM_MAX ev \<le> unat sreg then Returns (at_error ev s1)
       else on_char (rd (at_cmd s1) (unat (idx s1))) (\<lambda>c.
         if c = 0x3F then
           (let (val, s2) = call_collab ev (Param_get sreg) s1
            in Returns (emit (Print_num (nodeId ev (world s2)) val) s2))
         else if c = 0x3D \<and> sreg > 0 then
           on_number (at_parse_number (s1\<lparr>idx := idx s1 + 1\<rparr>)) (\<lambda>val s2.
             let (ok, s3) = call_collab ev (Param_set sreg val) s2
             in if ok \<noteq> 0 then Returns (at_ok ev s3) else Returns (at_error ev s3))
         else Returns (at_error ev s1)))"

text \<open>The literals compared by \<open>at_ampersand\<close>: "PDATE", "=RSSI" and "=TDM".\<close>

definition lit_PDATE :: "u8 list" where "lit_PDATE = [0x50, 0x44, 0x41, 0x54, 0x45]"
definition lit_RSSI :: "u8 list" where "lit_RSSI = [0x3D, 0x52, 0x53, 0x53, 0x49]"
definition lit_TDM :: "u8 list" where "lit_TDM = [0x3D, 0x54, 0x44, 0x4D]"

definition on_test :: "bool option \<Rightarrow> (bool \<Rightarrow> 's outcome) \<Rightarrow> 's outcome" where
  "on_test r k = (case r of None \<Rightarrow> Faults ReadOOB | Some b \<Rightarrow> k b)"

definition at_ampersand :: "'w env \<Rightarrow> 'w at_state \<Rightarrow> 'w at_state outcome" where
  "at_ampersand ev s =
     on_char (rd (at_cmd s) 3) (\<lambda>c.
       if c = 0x46 then Returns (at_ok ev (snd (call_collab ev Param_default s)))
       else if c = 0x57 then Returns (at_ok ev (snd (call_collab ev Param_save s)))
       else if c = 0x55 then
         on_test (str_eq (at_cmd s) 4 lit_PDATE) (\<lambda>b.
           if b then Halts (emit Read_code_fc00 s) else Returns (at_error ev s))
       else if c = 0x54 then
         on_test (str_eq (at_cmd s) 4 []) (\<lambda>b0.
           if b0 then Returns (s\<lparr>at_testmode := 0\<rparr>)
           else on_test (str_eq (at_cmd s) 4 lit_RSSI) (\<lambda>b1.
             if b1 then Returns (s\<lparr>at_testmode := xor (at_testmode s) (AT_TEST_RSSI ev)\<rparr>)
             else on_test (str_eq (at_cmd s) 4 lit_TDM) (\<lambda>b2.
               if b2 then Returns (s\<lparr>at_testmode := xor (at_testmode s) (AT_TEST_TDM ev)\<rparr>)
               else Returns (at_error ev s))))
       else Returns (at_error ev s))"

text \<open>One round of the pin dump of \<open>ATPP\<close>.\<close>

definition pin_report :: "'w env \<Rightarrow> nat \<Rightarrow> 'w at_state \<Rightarrow> 'w at_state" where
  "pin_report ev i s =
     (let s1 = emit (Print_pin (nodeId ev (world s)) (of_nat i)) s;
          (io, s2) = call_collab ev (Pins_user_get_io (of_nat i)) s1;
          s3 = emit (if io \<noteq> 0 then Print_output else Print_input) s2;
          (v, s4) = call_collab ev (Pins_user_get_value (of_nat i)) s3
      in emit (Print_val v) s4)"

definition at_p :: "'w env \<Rightarrow> 'w at_state \<Rightarrow> 'w at_state outcome" where
  "at_p ev s =
     on_char (rd (at_cmd s) 3) (\<lambda>c3.
       if c3 = 0x50 then
         (if 256 \<le> PIN_MAX ev then Diverges
          else Returns (fold (pin_report ev) [0..<PIN_MAX ev] s))
       else on_char (rd (at_cmd s) 4) (\<lambda>c4.
         if c4 \<noteq> 0x3D then Returns (at_error ev s)
         else on_char (rd (at_cmd s) 5) (\<lambda>c5.
           if \<not> isdigit c5 then Returns (at_error ev s)
           else
             (let pinId = c5 - 0x30 in
              if c3 = 0x4F
                then Returns (at_ok ev (snd (call_collab ev (Pins_user_set_io pinId (PIN_OUTPUT ev)) s)))
              else if c3 = 0x49
                then Returns (at_ok ev (snd (call_collab ev (Pins_user_set_io pinId (PIN_INPUT ev)) s)))
              else if c3 = 0x52 then
                (let (io, s1) = call_collab ev (Pins_user_get_io pinId) s in
                 if io = PIN_INPUT ev then
                   (let (v, s2) = call_collab ev (Pins_user_get_adc pinId) s1
                    in Returns (emit (Print_adc (nodeId ev (world s1)) v) s2))
                 else Returns (at_error ev s1))
              else if c3 = 0x43 then
                on_char (rd (at_cmd s) 7) (\<lambda>c7.
                  if \<not> isdigit c7 then Returns (at_error ev s)
                  else (let (ok, s1) = call_collab ev (Pins_user_set_value pinId (c7 - 0x30)) s in
                        if ok = 0 then Returns (at_error ev s1) else Returns (at_ok ev s1)))
              else Returns (at_error ev s)))))"

definition at_plus :: "'w env \<Rightarrow> 'w at_state \<Rightarrow> 'w at_state outcome" where
  "at_plus ev s =
     (if BOARD_rfd900a ev then
        on_number (at_parse_number (s\<lparr>idx := 4\<rparr>)) (\<lambda>n s1.
          let creg = (ucast n :: u8) in
          on_char (rd (at_cmd s1) 3) (\<lambda>c3.
            if c3 = 0x50 then
              on_char (rd (at_cmd s1) 4) (\<lambda>c4.
                if c4 \<noteq> 0x3D then Returns (at_error ev s1)
                else on_number (at_parse_number (s1\<lparr>idx := 5\<rparr>)) (\<lambda>val s2.
                  Returns (at_ok ev (snd (call_collab ev (Radio_set_diversity False)
                                            (emit (Set_PCA0CPH0 (ucast val)) s2))))))
            else if c3 = 0x43 then
              on_char (rd (at_cmd s1) (unat (idx s1))) (\<lambda>c.
                if c = 0x3F then
                  (let (val, s2) = call_collab ev (Calibration_get creg) s1
                   in Returns (emit (Print_cal val) s2))
                else if c = 0x3D then
                  on_number (at_parse_number (s1\<lparr>idx := idx s1 + 1\<rparr>)) (\<lambda>val s2.
                    let (ok, s3) = call_collab ev (Calibration_set creg (ucast val)) s2
                    in if ok \<noteq> 0 then Returns (at_ok ev s3) else Returns (at_error ev s3))
                else Returns (at_error ev s1))
            else if c3 = 0x4C then
              (let (ok, s2) = call_collab ev Calibration_lock s1
               in if ok \<noteq> 0 then Returns (at_ok ev s2) else Returns (at_error ev s2))
            else Returns (at_error ev s1)))
      else Returns (at_error ev s))"

subsection \<open>The dispatcher\<close>

text \<open>
  The scan of the remote command for a comma (0x2C), from the cursor up to the length of
  the line. The result is the cursor where it stops.
\<close>

function rt_scan :: "u8 list \<Rightarrow> u8 \<Rightarrow> u8 \<Rightarrow> u8 option" where
  "rt_scan buf len i =
     (if len \<le> i then Some i
      else case rd buf (unat i) of
             None \<Rightarrow> None
           | Some c \<Rightarrow> if c = 0x2C then Some i else rt_scan buf len (i + 1))"
  by pat_completeness auto
termination
proof (relation "measure (\<lambda>(buf, len, i). unat len - unat i)")
  show "wf (measure (\<lambda>(buf, len, i). unat len - unat i))" by simp
next
  fix buf :: "u8 list" and len i c :: u8
  assume "\<not> len \<le> i"
  then have "i < len" by simp
  then have "unat (i + 1) = unat i + 1 \<and> unat i < unat len"
    by unat_arith
  then show "((buf, len, i + 1), (buf, len, i)) \<in> measure (\<lambda>(buf, len, i). unat len - unat i)"
    by (simp, arith)
qed

declare rt_scan.simps [simp del]

definition at_remote :: "'w env \<Rightarrow> 'w at_state \<Rightarrow> 'w at_state outcome" where
  "at_remote ev s =
     (case rt_scan (at_cmd s) (at_cmd_len s) 3 of
        None \<Rightarrow> Faults ReadOOB
      | Some i \<Rightarrow>
          on_char (rd (at_cmd s) (unat i)) (\<lambda>c.
            let s1 = s\<lparr>idx := i\<rparr> in
            if c = 0x2C then
              (case wr (at_cmd s1) (unat i) 0 of
                 None \<Rightarrow> Faults WriteOOB
               | Some b \<Rightarrow>
                   on_number (at_parse_number (s1\<lparr>at_cmd := b, idx := i + 1\<rparr>)) (\<lambda>n s2.
                     Returns ((snd (call_collab ev (Tdm_remote_at (ucast n)) s2))
                                \<lparr>at_cmd_len := 0, at_cmd_ready := False\<rparr>)))
            else Returns ((snd (call_collab ev (Tdm_remote_at 0xFFFF) s1))
                            \<lparr>at_cmd_len := 0, at_cmd_ready := False\<rparr>)))"

definition at_local :: "'w env \<Rightarrow> 'w at_state \<Rightarrow> 'w at_state outcome" where
  "at_local ev s =
     on_char (rd (at_cmd s) 2) (\<lambda>c.
       if c = 0 then Returns (at_ok ev s)
       else if c = 0x26 then at_ampersand ev s
       else if c = 0x2B then at_plus ev s
       else if c = 0x49 then at_i ev s
       else if c = 0x50 then at_p ev s
       else if c = 0x4F then
         Returns ((if BOARD_RFD900A ev \<and> WATCH_DOG_ENABLE ev then emit (Watchdog True) else id)
                    (s\<lparr>at_plus_counter := ATP_COUNT_1S, at_mode_active := False\<rparr>))
       else if c = 0x53 then at_s ev s
       else if c = 0x5A then Halts (emit Set_RSTSRC s)
       else Returns (at_error ev s))"

text \<open>The test \<open>at_cmd_len >= 2 && at_cmd[0] == a && at_cmd[1] == b\<close>, evaluated left to right.\<close>

definition has_prefix :: "'w at_state \<Rightarrow> u8 \<Rightarrow> u8 \<Rightarrow> bool option" where
  "has_prefix s a b =
     (if at_cmd_len s \<ge> 2 then
        (case rd (at_cmd s) 0 of
           None \<Rightarrow> None
         | Some c0 \<Rightarrow> if c0 \<noteq> a then Some False
                      else (case rd (at_cmd s) 1 of None \<Rightarrow> None | Some c1 \<Rightarrow> Some (c1 = b)))
      else Some False)"

definition unlock :: "'w at_state outcome \<Rightarrow> 'w at_state outcome" where
  "unlock r = (case r of Returns s \<Rightarrow> Returns (s\<lparr>at_cmd_len := 0, at_cmd_ready := False\<rparr>)
                | Halts s \<Rightarrow> Halts s | Faults f \<Rightarrow> Faults f | Diverges \<Rightarrow> Diverges)"

definition at_command :: "'w env \<Rightarrow> 'w at_state \<Rightarrow> 'w at_state outcome" where
  "at_command ev s =
     (if at_cmd_ready s then
        on_test (has_prefix s 0x52 0x54) (\<lambda>rt.
          if rt then at_remote ev s
          else on_test (has_prefix s 0x41 0x54) (\<lambda>at.
            if at then unlock (at_local ev s)
            else Returns (s\<lparr>at_cmd_len := 0, at_cmd_ready := False\<rparr>)))
      else Returns s)"

subsection \<open>Well-formed buffers\<close>

text \<open>
  The array \<open>at_cmd\<close> has \<open>AT_CMD_MAXLEN + 1\<close> cells, the length is stored in eight bits
  and the synthesized "AT" needs three cells. The last cell is never written with
  anything but the terminator, so it ends every line.
\<close>

definition at_inv :: "'w env \<Rightarrow> 'w at_state \<Rightarrow> bool" where
  "at_inv ev s =
     (2 \<le> AT_CMD_MAXLEN ev \<and> AT_CMD_MAXLEN ev \<le> 255 \<and>
      length (at_cmd s) = AT_CMD_MAXLEN ev + 1 \<and>
      unat (at_cmd_len s) \<le> AT_CMD_MAXLEN ev \<and>
      at_cmd s ! AT_CMD_MAXLEN ev = 0)"

text \<open>
  The parts of a register command \<open>ATS<index><c><value>\<close> as the specification names
  them: the index is the number at offset 3, kept in eight bits as the handler keeps it;
  then the position of the character after the index; then the number after that
  character.
\<close>

definition ats_number :: "'w at_state \<Rightarrow> nat" where
  "ats_number s = decimal_value (digit_run (at_cmd s) 3)"

definition ats_index :: "'w at_state \<Rightarrow> u8" where
  "ats_index s = of_nat (ats_number s)"

definition ats_pos :: "'w at_state \<Rightarrow> nat" where
  "ats_pos s = 3 + length (digit_run (at_cmd s) 3)"

definition ats_value :: "'w at_state \<Rightarrow> u32" where
  "ats_value s = of_nat (decimal_value (digit_run (at_cmd s) (ats_pos s + 1)))"

text \<open>
  A handler leaves the buffer alone when the array, the length and the ready flag are as
  before. It ends well when it returns and has left the buffer alone; it may instead read
  outside the array only when the array has fewer than ten cells, and loop forever only
  when one of the eight-bit loop bounds is above 255.
\<close>

definition same_buffer :: "'w at_state \<Rightarrow> 'w at_state \<Rightarrow> bool" where
  "same_buffer s s' =
     (at_cmd s' = at_cmd s \<and> at_cmd_len s' = at_cmd_len s \<and> at_cmd_ready s' = at_cmd_ready s)"

definition ends :: "'w env \<Rightarrow> 'w at_state \<Rightarrow> 'w at_state outcome \<Rightarrow> bool" where
  "ends ev s r =
     (case r of
        Returns s' \<Rightarrow> same_buffer s s'
      | Halts s' \<Rightarrow> False
      | Faults f \<Rightarrow> f = ReadOOB \<and> AT_CMD_MAXLEN ev < 9
      | Diverges \<Rightarrow> 256 \<le> PARAM_MAX ev \<or> 256 \<le> PIN_MAX ev)"

text \<open>The same for the dispatcher, which may also end in one of its two endless loops.\<close>

definition cmd_ok :: "'w env \<Rightarrow> 'w at_state outcome \<Rightarrow> bool" where
  "cmd_ok ev r =
     (case r of
        Returns s' \<Rightarrow> at_inv ev s'
      | Halts s' \<Rightarrow> at_inv ev s'
      | Faults f \<Rightarrow> f = ReadOOB \<and> AT_CMD_MAXLEN ev < 9
      | Diverges \<Rightarrow> 256 \<le> PARAM_MAX ev \<or> 256 \<le> PIN_MAX ev)"

text \<open>
  The two lines on which the dispatcher does not return: "ATZ" followed by anything
  (software reset) and "AT&UPDATE" (forced flash error).
\<close>

definition never_returns :: "'w at_state \<Rightarrow> bool" where
  "never_returns s =
     (has_prefix s 0x41 0x54 = Some True \<and>
      (at_cmd s ! 2 = 0x5A \<or>
       at_cmd s ! 2 = 0x26 \<and> at_cmd s ! 3 = 0x55 \<and> str_eq (at_cmd s) 4 lit_PDATE = Some True))"

text \<open>The pin index that a collaborator call carries, and the indices used by a run of events.\<close>

fun pin_of :: "event \<Rightarrow> u8 option" where
  "pin_of (Called (Pins_user_get_io p) r) = Some p"
| "pin_of (Called (Pins_user_get_value p) r) = Some p"
| "pin_of (Called (Pins_user_get_adc p) r) = Some p"
| "pin_of (Called (Pins_user_set_io p d) r) = Some p"
| "pin_of (Called (Pins_user_set_value p v) r) = Some p"
| "pin_of e = None"

definition pins_used :: "event list \<Rightarrow> u8 list" where
  "pins_used es = List.map_filter pin_of es"

subsection \<open>A concrete configuration\<close>

text \<open>
  The module after power-on, with a command buffer of 17 cells, and an environment whose
  parameter store accepts every write and reads every register as 57.
\<close>

definition power_on :: "unit at_state" where
  "power_on = \<lparr>at_cmd = replicate 17 0, at_cmd_len = 0, idx = 0, at_mode_active = False,
     at_cmd_ready = False, at_testmode = 0, at_plus_state = 0, at_plus_counter = 100,
     console = [], world = ()\<rparr>"

definition demo_env :: "unit env" where
  "demo_env = \<lparr>AT_CMD_MAXLEN = 16, PARAM_MAX = 20, PIN_MAX = 6, PIN_INPUT = 0, PIN_OUTPUT = 1,
     AT_TEST_RSSI = 1, AT_TEST_TDM = 2, BOARD_ID = 0x42, BOARD_rfd900a = False,
     BOARD_RFD900A = False, WATCH_DOG_ENABLE = False, nodeId = (\<lambda>w. 1),
     g_board_frequency = (\<lambda>w. 0x91), g_board_bl_version = (\<lambda>w. 2),
     collab = (\<lambda>c w. (case c of Param_set r v \<Rightarrow> 1 | Param_get r \<Rightarrow> 57 | _ \<Rightarrow> 0, w))\<rparr>"

text \<open>
  A line of ASCII text as bytes, and the state in which that line sits in the buffer,
  terminated and marked ready, as the line editor leaves it after a carriage return.
\<close>

definition bytes :: "string \<Rightarrow> u8 list" where
  "bytes cs = map (\<lambda>c. of_nat (of_char c)) cs"

definition cmd_state :: "string \<Rightarrow> unit at_state" where
  "cmd_state l = power_on\<lparr>at_cmd := bytes l @ replicate (17 - length l) 0,
     at_cmd_len := of_nat (length l), at_cmd_ready := True, at_mode_active := True\<rparr>"

text \<open>
  A session at the host: the bytes of a line and a carriage return go through the line
  editor, then the main loop runs the dispatcher; and so on for the next line.
\<close>

fun feed :: "'w env \<Rightarrow> u8 list \<Rightarrow> 'w at_state \<Rightarrow> 'w at_state outcome" where
  "feed ev [] s = Returns s"
| "feed ev (c # cs) s =
     (case at_input ev c s of
        Returns s' \<Rightarrow> feed ev cs s'
      | Halts s' \<Rightarrow> Halts s'
      | Faults f \<Rightarrow> Faults f
      | Diverges \<Rightarrow> Diverges)"

definition enter_line :: "'w env \<Rightarrow> string \<Rightarrow> 'w at_state \<Rightarrow> 'w at_state outcome" where
  "enter_line ev l s =
     (case feed ev (bytes l @ [0x0D]) s of
        Returns s' \<Rightarrow> at_command ev s'
      | Halts s' \<Rightarrow> Halts s'
      | Faults f \<Rightarrow> Faults f
      | Diverges \<Rightarrow> Diverges)"

fun session :: "'w env \<Rightarrow> string list \<Rightarrow> 'w at_state \<Rightarrow> 'w at_state outcome" where
  "session ev [] s = Returns s"
| "session ev (l # ls) s =
     (case enter_line ev l s of
        Returns s' \<Rightarrow> session ev ls s'
      | Halts s' \<Rightarrow> Halts s'
      | Faults f \<Rightarrow> Faults f
      | Diverges \<Rightarrow> Diverges)"


section \<open>Properties\<close>

subsection \<open>The escape detector\<close>

lemmas ATP_defs = ATP_WAIT_FOR_IDLE_def ATP_WAIT_FOR_PLUS1_def ATP_WAIT_FOR_PLUS2_def
  ATP_WAIT_FOR_PLUS3_def ATP_WAIT_FOR_ENABLE_def ATP_COUNT_1S_def

lemma detector_nonplus: "c \<noteq> 0x2B \<Longrightarrow>
  at_plus_detector c s = s\<lparr>at_plus_state := ATP_WAIT_FOR_IDLE, at_plus_counter := ATP_COUNT_1S\<rparr>"
  by (simp add: at_plus_detector_def plus_switch_def plus_reset_def ATP_defs)

lemma detector_plus_1: "at_plus_state s = ATP_WAIT_FOR_PLUS1 \<Longrightarrow>
  at_plus_detector 0x2B s = s\<lparr>at_plus_state := ATP_WAIT_FOR_PLUS2\<rparr>"
  by (simp add: at_plus_detector_def plus_switch_def plus_reset_def ATP_defs)

lemma detector_plus_2: "at_plus_state s = ATP_WAIT_FOR_PLUS2 \<Longrightarrow>
  at_plus_detector 0x2B s = s\<lparr>at_plus_state := ATP_WAIT_FOR_PLUS3\<rparr>"
  by (simp add: at_plus_detector_def plus_switch_def plus_reset_def ATP_defs)

lemma detector_plus_3: "at_plus_state s = ATP_WAIT_FOR_PLUS3 \<Longrightarrow>
  at_plus_detector 0x2B s = s\<lparr>at_plus_state := ATP_WAIT_FOR_ENABLE, at_plus_counter := ATP_COUNT_1S\<rparr>"
  by (simp add: at_plus_detector_def plus_switch_def plus_reset_def ATP_defs)

lemma detector_plus_enable: "at_plus_state s = ATP_WAIT_FOR_ENABLE \<Longrightarrow>
  at_plus_detector 0x2B s = s\<lparr>at_plus_counter := ATP_COUNT_1S\<rparr>"
  by (simp add: at_plus_detector_def plus_switch_def plus_reset_def ATP_defs)

lemma detector_plus_idle: "at_plus_state s = ATP_WAIT_FOR_IDLE \<Longrightarrow>
  at_plus_detector 0x2B s = s\<lparr>at_plus_counter := ATP_COUNT_1S\<rparr>"
  by (simp add: at_plus_detector_def plus_switch_def plus_reset_def ATP_defs)

text \<open>
  C3. While the state is armed-for-enable, every byte restarts the countdown at the full
  100 ticks; a '+' leaves the state armed, any other byte makes it idle. And for every
  state, a byte other than '+' sets the state to idle before the switch on the state is
  entered, so that the detector ends idle with the full countdown.
\<close>

theorem detector_armed_and_nonplus:
  "(at_plus_state s = ATP_WAIT_FOR_ENABLE \<longrightarrow>
      at_plus_counter (at_plus_detector c s) = 100 \<and>
      at_plus_state (at_plus_detector c s) =
        (if c = 0x2B then ATP_WAIT_FOR_ENABLE else ATP_WAIT_FOR_IDLE)) \<and>
   (c \<noteq> 0x2B \<longrightarrow>
      plus_reset c s = s\<lparr>at_plus_state := ATP_WAIT_FOR_IDLE\<rparr> \<and>
      at_plus_state (at_plus_detector c s) = ATP_WAIT_FOR_IDLE \<and>
      at_plus_counter (at_plus_detector c s) = 100)"
  by (simp add: at_plus_detector_def plus_switch_def plus_reset_def ATP_defs)

theorem detector_armed_and_nonplus_witness:
  "at_plus_state (power_on\<lparr>at_plus_state := 4, at_plus_counter := 37\<rparr>) = ATP_WAIT_FOR_ENABLE \<and>
   (0x41 :: u8) \<noteq> 0x2B \<and>
   at_plus_counter (at_plus_detector 0x2B (power_on\<lparr>at_plus_state := 4, at_plus_counter := 37\<rparr>)) = 100 \<and>
   at_plus_state (at_plus_detector 0x2B (power_on\<lparr>at_plus_state := 4, at_plus_counter := 37\<rparr>)) = ATP_WAIT_FOR_ENABLE \<and>
   at_plus_counter (at_plus_detector 0x41 (power_on\<lparr>at_plus_state := 4, at_plus_counter := 37\<rparr>)) = 100 \<and>
   at_plus_state (at_plus_detector 0x41 (power_on\<lparr>at_plus_state := 4, at_plus_counter := 37\<rparr>)) = ATP_WAIT_FOR_IDLE"
  using detector_armed_and_nonplus [of "power_on\<lparr>at_plus_state := 4, at_plus_counter := 37\<rparr>" "0x2B"]
    detector_armed_and_nonplus [of "power_on\<lparr>at_plus_state := 4, at_plus_counter := 37\<rparr>" "0x41"]
  by (simp add: ATP_defs)

subsection \<open>The timer\<close>

lemma ticks_stopped: "at_plus_counter s = 0 \<Longrightarrow> ticks ev n s = Returns s"
  by (induction n) (simp_all add: at_timer_def)

lemma ticks_idle_expire:
  "at_plus_state s = ATP_WAIT_FOR_IDLE \<Longrightarrow> at_plus_counter s \<noteq> 0 \<Longrightarrow>
   unat (at_plus_counter s) \<le> n \<Longrightarrow>
   ticks ev n s = Returns (s\<lparr>at_plus_state := ATP_WAIT_FOR_PLUS1, at_plus_counter := 0\<rparr>)"
proof (induction n arbitrary: s)
  case 0
  then show ?case by (simp add: unat_0_iff)
next
  case (Suc n)
  show ?case
  proof (cases "at_plus_counter s - 1 = 0")
    case True
    then have "at_timer ev s = Returns (s\<lparr>at_plus_state := ATP_WAIT_FOR_PLUS1, at_plus_counter := 0\<rparr>)"
      using Suc.prems by (simp add: at_timer_def Let_def word_gt_0)
    then show ?thesis by (simp add: ticks_stopped)
  next
    case False
    let ?s1 = "s\<lparr>at_plus_counter := at_plus_counter s - 1\<rparr>"
    have step: "at_timer ev s = Returns ?s1"
      using Suc.prems False by (simp add: at_timer_def Let_def word_gt_0)
    have "unat (at_plus_counter ?s1) \<le> n"
      using Suc.prems by (simp add: unat_minus_one)
    with Suc.IH [of ?s1] Suc.prems False step show ?thesis by simp
  qed
qed

lemma stuff_AT_ok: "3 \<le> length buf \<Longrightarrow> stuff_AT buf = Some (buf[0 := 0x41, 1 := 0x54, 2 := 0])"
  by (auto simp: stuff_AT_def wr_def)

lemma ticks_enable_expire:
  "at_plus_state s = ATP_WAIT_FOR_ENABLE \<Longrightarrow> at_plus_counter s \<noteq> 0 \<Longrightarrow>
   unat (at_plus_counter s) \<le> n \<Longrightarrow> 3 \<le> length (at_cmd s) \<Longrightarrow>
   ticks ev n s = Returns (enter_command_mode ev s)"
proof (induction n arbitrary: s)
  case 0
  then show ?case by (simp add: unat_0_iff)
next
  case (Suc n)
  show ?case
  proof (cases "at_plus_counter s - 1 = 0")
    case True
    then have "at_timer ev s = Returns (enter_command_mode ev s)"
      using Suc.prems
      by (simp add: at_timer_def Let_def word_gt_0 stuff_AT_ok enter_command_mode_def emit_def ATP_defs)
    then show ?thesis by (simp add: ticks_stopped enter_command_mode_def emit_def)
  next
    case False
    let ?s1 = "s\<lparr>at_plus_counter := at_plus_counter s - 1\<rparr>"
    have step: "at_timer ev s = Returns ?s1"
      using Suc.prems False by (simp add: at_timer_def Let_def word_gt_0)
    have "unat (at_plus_counter ?s1) \<le> n"
      using Suc.prems by (simp add: unat_minus_one)
    with Suc.IH [of ?s1] Suc.prems False step show ?thesis
      by (simp add: enter_command_mode_def emit_def)
  qed
qed

lemma ticks_other_state:
  "at_plus_state s \<noteq> ATP_WAIT_FOR_IDLE \<Longrightarrow> at_plus_state s \<noteq> ATP_WAIT_FOR_ENABLE \<Longrightarrow>
   \<exists>c. ticks ev n s = Returns (s\<lparr>at_plus_counter := c\<rparr>)"
proof (induction n arbitrary: s)
  case 0
  have "s = s\<lparr>at_plus_counter := at_plus_counter s\<rparr>" by simp
  then show ?case by (metis ticks.simps(1))
next
  case (Suc n)
  show ?case
  proof (cases "at_plus_counter s = 0")
    case True
    then have "ticks ev (Suc n) s = Returns (s\<lparr>at_plus_counter := 0\<rparr>)"
      using ticks_stopped [of s ev "Suc n"] by simp
    then show ?thesis by blast
  next
    case False
    let ?s1 = "s\<lparr>at_plus_counter := at_plus_counter s - 1\<rparr>"
    have step: "at_timer ev s = Returns ?s1"
      using Suc.prems False by (simp add: at_timer_def Let_def word_gt_0)
    from Suc.IH [of ?s1] Suc.prems obtain c where "ticks ev n ?s1 = Returns (?s1\<lparr>at_plus_counter := c\<rparr>)"
      by auto
    with step have "ticks ev (Suc n) s = Returns (s\<lparr>at_plus_counter := c\<rparr>)" by simp
    then show ?thesis by blast
  qed
qed

lemma enter_command_mode_fields:
  "3 \<le> length (at_cmd s) \<Longrightarrow>
   at_mode_active (enter_command_mode ev s) \<and>
   at_plus_state (enter_command_mode ev s) = ATP_WAIT_FOR_IDLE \<and>
   at_cmd_ready (enter_command_mode ev s) \<and>
   at_cmd_len (enter_command_mode ev s) = 2 \<and>
   take 3 (at_cmd (enter_command_mode ev s)) = [0x41, 0x54, 0]"
proof -
  assume len: "3 \<le> length (at_cmd s)"
  then obtain a b c r where "at_cmd s = a # b # c # r"
    by (cases "at_cmd s"; cases "tl (at_cmd s)"; cases "tl (tl (at_cmd s))") auto
  then show ?thesis
    by (simp add: enter_command_mode_def emit_def ATP_defs)
qed

lemma plus3_idle: "at_plus_state s = ATP_WAIT_FOR_IDLE \<Longrightarrow>
  plus3 s = s\<lparr>at_plus_counter := ATP_COUNT_1S\<rparr>"
  by (simp add: plus3_def detector_plus_idle)

lemma and_then_Returns [simp]: "and_then (Returns s) k = k s"
  by (simp add: and_then_def)

lemma ticks_running:
  "n < unat (at_plus_counter s) \<Longrightarrow>
   ticks ev n s = Returns (s\<lparr>at_plus_counter := at_plus_counter s - of_nat n\<rparr>)"
proof (induction n arbitrary: s)
  case 0
  then show ?case by simp
next
  case (Suc n)
  let ?s1 = "s\<lparr>at_plus_counter := at_plus_counter s - 1\<rparr>"
  from Suc.prems have nz: "at_plus_counter s \<noteq> 0" by (auto simp: unat_gt_0 [symmetric])
  from Suc.prems have nz1: "at_plus_counter s - 1 \<noteq> 0"
    using nz by (auto simp: unat_gt_0 [symmetric] unat_minus_one)
  have step: "at_timer ev s = Returns ?s1"
    using Suc.prems nz nz1 by (simp add: at_timer_def Let_def word_gt_0)
  have "n < unat (at_plus_counter ?s1)"
    using Suc.prems nz by (simp add: unat_minus_one)
  with Suc.IH [of ?s1] Suc.prems step show ?case by (simp add: algebra_simps)
qed

lemma step_collect_1:
  assumes "at_plus_state s = ATP_WAIT_FOR_PLUS1"
  shows "\<exists>s2. ticks ev g (at_plus_detector 0x2B s) = Returns s2 \<and>
           at_plus_state s2 = ATP_WAIT_FOR_PLUS2 \<and> at_cmd s2 = at_cmd s"
proof -
  let ?s = "s\<lparr>at_plus_state := ATP_WAIT_FOR_PLUS2\<rparr>"
  have d: "at_plus_detector 0x2B s = ?s" using assms by (rule detector_plus_1)
  have "\<exists>c. ticks ev g ?s = Returns (?s\<lparr>at_plus_counter := c\<rparr>)"
    by (rule ticks_other_state) (simp_all add: ATP_defs)
  then show ?thesis by (auto simp: d)
qed

lemma step_collect_2:
  assumes "at_plus_state s = ATP_WAIT_FOR_PLUS2"
  shows "\<exists>s2. ticks ev g (at_plus_detector 0x2B s) = Returns s2 \<and>
           at_plus_state s2 = ATP_WAIT_FOR_PLUS3 \<and> at_cmd s2 = at_cmd s"
proof -
  let ?s = "s\<lparr>at_plus_state := ATP_WAIT_FOR_PLUS3\<rparr>"
  have d: "at_plus_detector 0x2B s = ?s" using assms by (rule detector_plus_2)
  have "\<exists>c. ticks ev g ?s = Returns (?s\<lparr>at_plus_counter := c\<rparr>)"
    by (rule ticks_other_state) (simp_all add: ATP_defs)
  then show ?thesis by (auto simp: d)
qed

lemma detector_plus_arms:
  assumes "at_plus_state s = ATP_WAIT_FOR_PLUS3 \<or> at_plus_state s = ATP_WAIT_FOR_ENABLE"
  shows "at_plus_detector 0x2B s =
           s\<lparr>at_plus_state := ATP_WAIT_FOR_ENABLE, at_plus_counter := ATP_COUNT_1S\<rparr>"
  using assms
proof
  assume "at_plus_state s = ATP_WAIT_FOR_PLUS3"
  then show ?thesis by (rule detector_plus_3)
next
  assume e: "at_plus_state s = ATP_WAIT_FOR_ENABLE"
  then have "s\<lparr>at_plus_counter := ATP_COUNT_1S\<rparr> =
      s\<lparr>at_plus_state := ATP_WAIT_FOR_ENABLE, at_plus_counter := ATP_COUNT_1S\<rparr>" by simp
  with detector_plus_enable [OF e] show ?thesis by simp
qed

lemma step_arm:
  assumes st: "at_plus_state s = ATP_WAIT_FOR_PLUS3 \<or> at_plus_state s = ATP_WAIT_FOR_ENABLE"
    and g: "g < 100"
  shows "\<exists>s2. ticks ev g (at_plus_detector 0x2B s) = Returns s2 \<and>
           at_plus_state s2 = ATP_WAIT_FOR_ENABLE \<and> at_cmd s2 = at_cmd s"
proof -
  let ?s = "s\<lparr>at_plus_state := ATP_WAIT_FOR_ENABLE, at_plus_counter := ATP_COUNT_1S\<rparr>"
  have d: "at_plus_detector 0x2B s = ?s" using st by (rule detector_plus_arms)
  have "ticks ev g ?s = Returns (?s\<lparr>at_plus_counter := at_plus_counter ?s - of_nat g\<rparr>)"
    using g by (intro ticks_running) (simp add: ATP_defs)
  then show ?thesis by (simp add: d)
qed

lemma step_fire:
  assumes st: "at_plus_state s = ATP_WAIT_FOR_PLUS3 \<or> at_plus_state s = ATP_WAIT_FOR_ENABLE"
    and n: "100 \<le> n" and buf: "3 \<le> length (at_cmd s)"
  shows "\<exists>s'. ticks ev n (at_plus_detector 0x2B s) = Returns s' \<and> at_mode_active s' \<and>
           at_plus_state s' = ATP_WAIT_FOR_IDLE \<and> at_cmd_ready s' \<and> at_cmd_len s' = 2 \<and>
           take 3 (at_cmd s') = [0x41, 0x54, 0]"
proof -
  let ?s = "s\<lparr>at_plus_state := ATP_WAIT_FOR_ENABLE, at_plus_counter := ATP_COUNT_1S\<rparr>"
  have d: "at_plus_detector 0x2B s = ?s" using st by (rule detector_plus_arms)
  have "ticks ev n ?s = Returns (enter_command_mode ev ?s)"
    using n buf by (intro ticks_enable_expire) (simp_all add: ATP_defs)
  moreover have "3 \<le> length (at_cmd ?s)" using buf by simp
  ultimately show ?thesis using enter_command_mode_fields [of ?s ev] by (simp add: d)
qed

lemma at_timer_quiet:
  assumes "at_plus_state s \<noteq> ATP_WAIT_FOR_ENABLE"
  shows "\<exists>s'. at_timer ev s = Returns s' \<and> at_plus_state s' \<noteq> ATP_WAIT_FOR_ENABLE \<and>
           pluses_needed s' = pluses_needed s \<and> at_mode_active s' = at_mode_active s"
  using assms by (auto simp: at_timer_def Let_def pluses_needed_def ATP_defs)

lemma ticks_quiet:
  "at_plus_state s \<noteq> ATP_WAIT_FOR_ENABLE \<Longrightarrow>
   \<exists>s'. ticks ev n s = Returns s' \<and> at_plus_state s' \<noteq> ATP_WAIT_FOR_ENABLE \<and>
        pluses_needed s' = pluses_needed s \<and> at_mode_active s' = at_mode_active s"
proof (induction n arbitrary: s)
  case 0
  then show ?case by simp
next
  case (Suc n)
  from at_timer_quiet [OF Suc.prems, of ev] obtain s1 where
    s1: "at_timer ev s = Returns s1" "at_plus_state s1 \<noteq> ATP_WAIT_FOR_ENABLE"
      "pluses_needed s1 = pluses_needed s" "at_mode_active s1 = at_mode_active s" by blast
  from Suc.IH [OF s1(2)] obtain s' where
    "ticks ev n s1 = Returns s'" "at_plus_state s' \<noteq> ATP_WAIT_FOR_ENABLE"
    "pluses_needed s' = pluses_needed s1" "at_mode_active s' = at_mode_active s1" by blast
  with s1 show ?case by simp
qed

lemma detector_plus_needed:
  "pluses_needed s - 1 \<le> pluses_needed (at_plus_detector 0x2B s) \<and>
   at_mode_active (at_plus_detector 0x2B s) = at_mode_active s"
  by (simp add: at_plus_detector_def plus_reset_def plus_switch_def pluses_needed_def ATP_defs)

lemma needed_not_armed: "0 < pluses_needed s \<Longrightarrow> at_plus_state s \<noteq> ATP_WAIT_FOR_ENABLE"
  by (auto simp: pluses_needed_def)

lemma pluses_too_few:
  "length gs < pluses_needed s \<Longrightarrow>
   \<exists>s'. pluses ev gs s = Returns s' \<and> at_plus_state s' \<noteq> ATP_WAIT_FOR_ENABLE \<and>
        at_mode_active s' = at_mode_active s"
proof (induction gs arbitrary: s)
  case Nil
  then show ?case by (simp add: needed_not_armed)
next
  case (Cons g gs)
  let ?d = "at_plus_detector 0x2B s"
  from Cons.prems detector_plus_needed [of s] have n: "length gs < pluses_needed ?d"
    by (simp, arith)
  then have "at_plus_state ?d \<noteq> ATP_WAIT_FOR_ENABLE" by (intro needed_not_armed) simp
  from ticks_quiet [OF this, of ev g] obtain s1 where
    s1: "ticks ev g ?d = Returns s1" "pluses_needed s1 = pluses_needed ?d"
      "at_mode_active s1 = at_mode_active ?d" by blast
  from Cons.IH [of s1] n s1 obtain s' where
    "pluses ev gs s1 = Returns s'" "at_plus_state s' \<noteq> ATP_WAIT_FOR_ENABLE"
    "at_mode_active s' = at_mode_active s1" by auto
  with s1 detector_plus_needed [of s] show ?case by simp
qed

lemma pluses_after_nonplus:
  assumes c: "c \<noteq> 0x2B" and l: "length gs \<le> 3"
  shows "\<exists>t'. pluses ev gs (at_plus_detector c t) = Returns t' \<and>
           at_plus_state t' \<noteq> ATP_WAIT_FOR_ENABLE \<and> at_mode_active t' = at_mode_active t"
proof (cases gs)
  case Nil
  with c show ?thesis by (simp add: detector_nonplus ATP_defs)
next
  case (Cons g gs')
  let ?s0 = "t\<lparr>at_plus_state := ATP_WAIT_FOR_IDLE, at_plus_counter := ATP_COUNT_1S\<rparr>"
  have d0: "at_plus_detector c t = ?s0" using c by (rule detector_nonplus)
  have d1: "at_plus_detector 0x2B ?s0 = ?s0"
    using detector_plus_idle [of ?s0] by simp
  have "at_plus_state ?s0 \<noteq> ATP_WAIT_FOR_ENABLE" by (simp add: ATP_defs)
  from ticks_quiet [OF this, of ev g] obtain s1 where
    s1: "ticks ev g ?s0 = Returns s1" "pluses_needed s1 = pluses_needed ?s0"
      "at_mode_active s1 = at_mode_active ?s0" by blast
  have "pluses_needed ?s0 = 3" by (simp add: pluses_needed_def ATP_defs)
  with s1 l Cons have "length gs' < pluses_needed s1" by simp
  from pluses_too_few [OF this, of ev] obtain t' where
    "pluses ev gs' s1 = Returns t'" "at_plus_state t' \<noteq> ATP_WAIT_FOR_ENABLE"
    "at_mode_active t' = at_mode_active s1" by blast
  with s1 show ?thesis by (simp add: Cons d0 d1)
qed

lemma quiet_start:
  assumes n0: "100 \<le> n0"
    and start: "(at_plus_state s = ATP_WAIT_FOR_IDLE \<and> at_plus_counter s \<noteq> 0 \<and>
                 unat (at_plus_counter s) \<le> n0) \<or> at_plus_state s = ATP_WAIT_FOR_PLUS1"
  shows "\<exists>s1. ticks ev n0 s = Returns s1 \<and> at_cmd s1 = at_cmd s \<and>
           at_plus_state s1 = ATP_WAIT_FOR_PLUS1"
proof (cases "at_plus_state s = ATP_WAIT_FOR_IDLE")
  case True
  with start have "ticks ev n0 s =
      Returns (s\<lparr>at_plus_state := ATP_WAIT_FOR_PLUS1, at_plus_counter := 0\<rparr>)"
    by (intro ticks_idle_expire) (auto simp: ATP_defs)
  then show ?thesis by simp
next
  case False
  with start have p: "at_plus_state s = ATP_WAIT_FOR_PLUS1" by simp
  then have ne: "at_plus_state s \<noteq> ATP_WAIT_FOR_ENABLE" by (simp add: ATP_defs)
  from ticks_other_state [OF False ne, of ev n0] obtain c where
    "ticks ev n0 s = Returns (s\<lparr>at_plus_counter := c\<rparr>)" by blast
  with p show ?thesis by simp
qed

lemma quiet_collecting:
  assumes "at_plus_state s = ATP_WAIT_FOR_PLUS2 \<or> at_plus_state s = ATP_WAIT_FOR_PLUS3"
  shows "\<exists>s1. ticks ev n0 s = Returns s1 \<and> at_cmd s1 = at_cmd s \<and>
           at_plus_state s1 = at_plus_state s"
proof -
  from assms have "at_plus_state s \<noteq> ATP_WAIT_FOR_IDLE" "at_plus_state s \<noteq> ATP_WAIT_FOR_ENABLE"
    by (auto simp: ATP_defs)
  from ticks_other_state [OF this, of ev n0] obtain c where
    "ticks ev n0 s = Returns (s\<lparr>at_plus_counter := c\<rparr>)" by blast
  then show ?thesis by simp
qed

lemma escape_with_gaps_fires:
  assumes buf: "3 \<le> length (at_cmd s)"
    and n0: "100 \<le> n0" and n3: "100 \<le> n3"
    and start: "(at_plus_state s = ATP_WAIT_FOR_IDLE \<and> at_plus_counter s \<noteq> 0 \<and>
                 unat (at_plus_counter s) \<le> n0) \<or>
                at_plus_state s = ATP_WAIT_FOR_PLUS1 \<or>
                (at_plus_state s = ATP_WAIT_FOR_PLUS2 \<and> g2 < 100) \<or>
                (at_plus_state s = ATP_WAIT_FOR_PLUS3 \<and> g1 < 100 \<and> g2 < 100)"
  shows "\<exists>s'. escape_with_gaps ev n0 g1 g2 n3 s = Returns s' \<and> at_mode_active s' \<and>
           at_plus_state s' = ATP_WAIT_FOR_IDLE \<and> at_cmd_ready s' \<and> at_cmd_len s' = 2 \<and>
           take 3 (at_cmd s') = [0x41, 0x54, 0]"
proof -
  consider
    (a) "(at_plus_state s = ATP_WAIT_FOR_IDLE \<and> at_plus_counter s \<noteq> 0 \<and>
          unat (at_plus_counter s) \<le> n0) \<or> at_plus_state s = ATP_WAIT_FOR_PLUS1"
    | (b) "at_plus_state s = ATP_WAIT_FOR_PLUS2" "g2 < 100"
    | (c) "at_plus_state s = ATP_WAIT_FOR_PLUS3" "g1 < 100" "g2 < 100"
    using start by blast
  then show ?thesis
  proof cases
    case a
    from quiet_start [OF n0 a, of ev] obtain s1 where
      s1: "ticks ev n0 s = Returns s1" "at_cmd s1 = at_cmd s" "at_plus_state s1 = ATP_WAIT_FOR_PLUS1"
      by blast
    from step_collect_1 [OF s1(3), of ev g1] obtain s2 where
      s2: "ticks ev g1 (at_plus_detector 0x2B s1) = Returns s2"
        "at_plus_state s2 = ATP_WAIT_FOR_PLUS2" "at_cmd s2 = at_cmd s1" by blast
    from step_collect_2 [OF s2(2), of ev g2] obtain s3 where
      s3: "ticks ev g2 (at_plus_detector 0x2B s2) = Returns s3"
        "at_plus_state s3 = ATP_WAIT_FOR_PLUS3" "at_cmd s3 = at_cmd s2" by blast
    have "3 \<le> length (at_cmd s3)" using buf s1 s2 s3 by simp
    from step_fire [OF _ n3 this, of ev] s3(2) obtain s' where
      "ticks ev n3 (at_plus_detector 0x2B s3) = Returns s'" "at_mode_active s'"
      "at_plus_state s' = ATP_WAIT_FOR_IDLE" "at_cmd_ready s'" "at_cmd_len s' = 2"
      "take 3 (at_cmd s') = [0x41, 0x54, 0]" by blast
    with s1 s2 s3 show ?thesis by (simp add: escape_with_gaps_def)
  next
    case b
    from quiet_collecting [of s ev n0] b(1) obtain s1 where
      s1: "ticks ev n0 s = Returns s1" "at_cmd s1 = at_cmd s" "at_plus_state s1 = ATP_WAIT_FOR_PLUS2"
      by auto
    from step_collect_2 [OF s1(3), of ev g1] obtain s2 where
      s2: "ticks ev g1 (at_plus_detector 0x2B s1) = Returns s2"
        "at_plus_state s2 = ATP_WAIT_FOR_PLUS3" "at_cmd s2 = at_cmd s1" by blast
    from step_arm [OF _ b(2), of s2 ev] s2(2) obtain s3 where
      s3: "ticks ev g2 (at_plus_detector 0x2B s2) = Returns s3"
        "at_plus_state s3 = ATP_WAIT_FOR_ENABLE" "at_cmd s3 = at_cmd s2" by blast
    have "3 \<le> length (at_cmd s3)" using buf s1 s2 s3 by simp
    from step_fire [OF _ n3 this, of ev] s3(2) obtain s' where
      "ticks ev n3 (at_plus_detector 0x2B s3) = Returns s'" "at_mode_active s'"
      "at_plus_state s' = ATP_WAIT_FOR_IDLE" "at_cmd_ready s'" "at_cmd_len s' = 2"
      "take 3 (at_cmd s') = [0x41, 0x54, 0]" by blast
    with s1 s2 s3 show ?thesis by (simp add: escape_with_gaps_def)
  next
    case c
    from quiet_collecting [of s ev n0] c(1) obtain s1 where
      s1: "ticks ev n0 s = Returns s1" "at_cmd s1 = at_cmd s" "at_plus_state s1 = ATP_WAIT_FOR_PLUS3"
      by auto
    from step_arm [OF _ c(2), of s1 ev] s1(3) obtain s2 where
      s2: "ticks ev g1 (at_plus_detector 0x2B s1) = Returns s2"
        "at_plus_state s2 = ATP_WAIT_FOR_ENABLE" "at_cmd s2 = at_cmd s1" by blast
    from step_arm [OF _ c(3), of s2 ev] s2(2) obtain s3 where
      s3: "ticks ev g2 (at_plus_detector 0x2B s2) = Returns s3"
        "at_plus_state s3 = ATP_WAIT_FOR_ENABLE" "at_cmd s3 = at_cmd s2" by blast
    have "3 \<le> length (at_cmd s3)" using buf s1 s2 s3 by simp
    from step_fire [OF _ n3 this, of ev] s3(2) obtain s' where
      "ticks ev n3 (at_plus_detector 0x2B s3) = Returns s'" "at_mode_active s'"
      "at_plus_state s' = ATP_WAIT_FOR_IDLE" "at_cmd_ready s'" "at_cmd_len s' = 2"
      "take 3 (at_cmd s') = [0x41, 0x54, 0]" by blast
    with s1 s2 s3 show ?thesis by (simp add: escape_with_gaps_def)
  qed
qed

text \<open>
  C1 (as amended). The timer ticks while the bytes arrive: \<open>n0\<close> ticks pass before the
  first '+', \<open>g1\<close> and \<open>g2\<close> between the pluses, \<open>n3\<close> after the third, with \<open>n0\<close> and
  \<open>n3\<close> at least 100 and a buffer of at least three cells. Start in the idle state with a
  running counter of at most \<open>n0\<close> ticks or in seen-plus-1, with any gaps; or in
  seen-plus-2 with \<open>g2\<close> below 100; or in seen-plus-3 with \<open>g1\<close> and \<open>g2\<close> below 100.
  Then the run switches to command mode: the mode flag is set, the escape state is idle,
  and the buffer holds the ready line "AT" of length 2. And from any state, up to three
  '+' bytes that follow a byte other than '+' at once never arm the enable state and
  never change the mode flag, however many ticks pass between and after them.
\<close>

theorem escape_sequence_enters_command_mode:
  assumes buf: "3 \<le> length (at_cmd s)"
    and n0: "100 \<le> n0" and n3: "100 \<le> n3"
    and start: "(at_plus_state s = ATP_WAIT_FOR_IDLE \<and> at_plus_counter s \<noteq> 0 \<and>
                 unat (at_plus_counter s) \<le> n0) \<or>
                at_plus_state s = ATP_WAIT_FOR_PLUS1 \<or>
                (at_plus_state s = ATP_WAIT_FOR_PLUS2 \<and> g2 < 100) \<or>
                (at_plus_state s = ATP_WAIT_FOR_PLUS3 \<and> g1 < 100 \<and> g2 < 100)"
  shows "(\<exists>s'. escape_with_gaps ev n0 g1 g2 n3 s = Returns s' \<and> at_mode_active s' \<and>
           at_plus_state s' = ATP_WAIT_FOR_IDLE \<and> at_cmd_ready s' \<and> at_cmd_len s' = 2 \<and>
           take 3 (at_cmd s') = [0x41, 0x54, 0]) \<and>
         (\<forall>c t gs. c \<noteq> 0x2B \<and> length gs \<le> 3 \<longrightarrow>
           (\<exists>t'. pluses ev gs (at_plus_detector c t) = Returns t' \<and>
                 at_plus_state t' \<noteq> ATP_WAIT_FOR_ENABLE \<and> at_mode_active t' = at_mode_active t))"
proof (intro conjI allI impI)
  show "\<exists>s'. escape_with_gaps ev n0 g1 g2 n3 s = Returns s' \<and> at_mode_active s' \<and>
           at_plus_state s' = ATP_WAIT_FOR_IDLE \<and> at_cmd_ready s' \<and> at_cmd_len s' = 2 \<and>
           take 3 (at_cmd s') = [0x41, 0x54, 0]"
    using buf n0 n3 start by (rule escape_with_gaps_fires)
next
  fix c :: u8 and t :: "'a at_state" and gs :: "nat list"
  assume "c \<noteq> 0x2B \<and> length gs \<le> 3"
  then show "\<exists>t'. pluses ev gs (at_plus_detector c t) = Returns t' \<and>
          at_plus_state t' \<noteq> ATP_WAIT_FOR_ENABLE \<and> at_mode_active t' = at_mode_active t"
    by (intro pluses_after_nonplus) simp_all
qed

theorem escape_sequence_enters_command_mode_witness:
  "3 \<le> length (at_cmd power_on) \<and> (100::nat) \<le> 100 \<and>
   at_plus_state power_on = ATP_WAIT_FOR_IDLE \<and> at_plus_counter power_on \<noteq> 0 \<and>
   unat (at_plus_counter power_on) \<le> 100 \<and>
   (\<exists>s'. escape_with_gaps demo_env 100 5 250 100 power_on = Returns s' \<and> at_mode_active s' \<and>
         at_plus_state s' = ATP_WAIT_FOR_IDLE \<and> at_cmd_ready s' \<and> at_cmd_len s' = 2 \<and>
         take 3 (at_cmd s') = [0x41, 0x54, 0]) \<and>
   (0x41 :: u8) \<noteq> 0x2B \<and> length [0, 150, 100 :: nat] \<le> 3 \<and>
   (\<exists>t'. pluses demo_env [0, 150, 100] (at_plus_detector 0x41 power_on) = Returns t' \<and>
         at_plus_state t' \<noteq> ATP_WAIT_FOR_ENABLE \<and> at_mode_active t' = at_mode_active power_on)"
proof -
  have h: "3 \<le> length (at_cmd power_on)" "(100::nat) \<le> 100"
    "at_plus_state power_on = ATP_WAIT_FOR_IDLE" "at_plus_counter power_on \<noteq> 0"
    "unat (at_plus_counter power_on) \<le> 100"
    by (simp_all add: power_on_def ATP_defs)
  have ne: "(0x41 :: u8) \<noteq> 0x2B \<and> length [0, 150, 100 :: nat] \<le> 3" by simp
  from escape_sequence_enters_command_mode
    [where s = power_on and ?n0.0 = 100 and ?g1.0 = 5 and ?g2.0 = 250 and ?n3.0 = 100 and ev = demo_env] h
  have "(\<exists>s'. escape_with_gaps demo_env 100 5 250 100 power_on = Returns s' \<and> at_mode_active s' \<and>
           at_plus_state s' = ATP_WAIT_FOR_IDLE \<and> at_cmd_ready s' \<and> at_cmd_len s' = 2 \<and>
           take 3 (at_cmd s') = [0x41, 0x54, 0]) \<and>
         (\<forall>c t gs. c \<noteq> 0x2B \<and> length gs \<le> 3 \<longrightarrow>
           (\<exists>t'. pluses demo_env gs (at_plus_detector c t) = Returns t' \<and>
                 at_plus_state t' \<noteq> ATP_WAIT_FOR_ENABLE \<and> at_mode_active t' = at_mode_active t))"
    by blast
  with h ne show ?thesis by blast
qed

text \<open>
  The bound on the gap is needed once the state is armed: from seen-plus-2 the second '+'
  arms, a gap of 100 ticks then enters command mode before the third '+' arrives, and
  that '+' starts a new countdown, so the run ends with the mode flag set but in
  seen-plus-1.
\<close>

lemma long_gap_after_arming:
  "escape_with_gaps demo_env 100 0 100 100
     (power_on\<lparr>at_plus_state := ATP_WAIT_FOR_PLUS2, at_plus_counter := 0\<rparr>) =
   Returns (power_on\<lparr>at_cmd := [0x41, 0x54] @ replicate 15 0, at_cmd_len := 2,
      at_mode_active := True, at_cmd_ready := True, at_plus_state := ATP_WAIT_FOR_PLUS1,
      at_plus_counter := 0\<rparr>)"
  by code_simp

text \<open>
  The scenario with no tick between the pluses is the one with both gaps zero.
\<close>

lemma escape_sequence_no_gaps:
  "escape_sequence ev n0 n3 s = escape_with_gaps ev n0 0 0 n3 s"
  by (cases "ticks ev n0 s")
     (simp_all add: escape_sequence_def escape_with_gaps_def and_then_def plus3_def
        split: outcome.splits)

text \<open>
  The claim as written, from any starting state, fails in the idle state with a stopped
  counter, the state the timer leaves behind when it enters command mode: the first '+'
  only restarts the countdown, and the sequence ends in seen-plus-1 with the mode flag
  still clear and no line ready.
\<close>

theorem escape_sequence_stopped_counter_counterexample:
  "escape_sequence demo_env 100 100 (power_on\<lparr>at_plus_counter := 0\<rparr>) =
     Returns (power_on\<lparr>at_plus_state := ATP_WAIT_FOR_PLUS1, at_plus_counter := 0\<rparr>) \<and>
   \<not> at_mode_active (power_on\<lparr>at_plus_state := ATP_WAIT_FOR_PLUS1, at_plus_counter := 0\<rparr>) \<and>
   at_plus_state (power_on\<lparr>at_plus_state := ATP_WAIT_FOR_PLUS1, at_plus_counter := 0\<rparr>)
     \<noteq> ATP_WAIT_FOR_IDLE \<and>
   \<not> at_cmd_ready (power_on\<lparr>at_plus_state := ATP_WAIT_FOR_PLUS1, at_plus_counter := 0\<rparr>)"
proof -
  let ?s = "power_on\<lparr>at_plus_counter := 0\<rparr>"
  have a: "ticks demo_env 100 ?s = Returns ?s" by (simp add: ticks_stopped)
  have b: "plus3 ?s = power_on" by (simp add: plus3_idle power_on_def ATP_defs)
  have c: "ticks demo_env 100 power_on =
      Returns (power_on\<lparr>at_plus_state := ATP_WAIT_FOR_PLUS1, at_plus_counter := 0\<rparr>)"
    by (intro ticks_idle_expire) (simp_all add: power_on_def ATP_defs)
  show ?thesis by (simp add: escape_sequence_def a b c) (simp add: power_on_def ATP_defs)
qed

text \<open>
  The stopped counter with a clear mode flag arises in operation: enter command mode by
  the escape sequence, let the dispatcher answer the synthesized "AT", then send 17
  characters without a carriage return. The overflow leaves command mode, but unlike the
  command ATO it does not restart the counter.
\<close>

lemma stopped_counter_after_overflow:
  "and_then (and_then (escape_sequence demo_env 100 100 power_on) (at_command demo_env))
     (feed demo_env (replicate 17 0x58)) =
   Returns (power_on\<lparr>at_cmd := replicate 16 0x58 @ [0], at_plus_counter := 0,
      console := Print_OK 1 # replicate 16 (Putchar 0x58)\<rparr>)"
  by code_simp

subsection \<open>Reachable states of the detector and the timer\<close>

lemma plus_inv_detector: "plus_inv s \<Longrightarrow> plus_inv (at_plus_detector c s)"
  by (auto simp add: plus_inv_def at_plus_detector_def plus_switch_def plus_reset_def ATP_defs
      split: if_splits)

lemma word_pred_le2: "(c::u8) \<le> 100 \<Longrightarrow> c \<noteq> 0 \<Longrightarrow> c - 1 \<le> 100"
  by unat_arith

lemma plus_inv_timer: "plus_inv s \<Longrightarrow> at_timer ev s = Returns s' \<Longrightarrow> plus_inv s'"
  by (auto simp add: plus_inv_def at_timer_def Let_def ATP_defs emit_def word_pred_le2
      split: if_splits option.splits)

lemma reach_inv: "reach ev s \<Longrightarrow> plus_inv s"
proof (induction rule: reach.induct)
  case (reach_init s)
  then show ?case by (simp add: plus_inv_def ATP_defs)
next
  case (reach_byte s c)
  then show ?case by (simp add: plus_inv_detector)
next
  case (reach_tick s s')
  then show ?case by (simp add: plus_inv_timer)
qed

lemma reach_ticks: "reach ev s \<Longrightarrow> ticks ev n s = Returns s' \<Longrightarrow> reach ev s'"
proof (induction n arbitrary: s)
  case 0
  then show ?case by simp
next
  case (Suc n)
  then show ?case by (auto split: outcome.splits intro: reach_tick)
qed

text \<open>
  C10. In every state that the detector and the timer reach from the initial
  configuration, the counter is zero whenever the state is seen-plus-1, seen-plus-2 or
  seen-plus-3, so a tick changes nothing there; a nonzero counter occurs only in the idle
  and the armed-for-enable state.
\<close>

theorem collecting_pluses_counter_stopped:
  assumes "reach ev s"
  shows "(at_plus_state s = ATP_WAIT_FOR_PLUS1 \<or> at_plus_state s = ATP_WAIT_FOR_PLUS2 \<or>
          at_plus_state s = ATP_WAIT_FOR_PLUS3 \<longrightarrow>
            at_plus_counter s = 0 \<and> at_timer ev s = Returns s) \<and>
         (at_plus_counter s \<noteq> 0 \<longrightarrow>
            at_plus_state s = ATP_WAIT_FOR_IDLE \<or> at_plus_state s = ATP_WAIT_FOR_ENABLE)"
proof -
  from assms have "plus_inv s" by (rule reach_inv)
  then show ?thesis
    by (auto simp add: plus_inv_def at_timer_def ATP_defs split: if_splits)
qed

theorem collecting_pluses_counter_stopped_witness:
  "reach demo_env (at_plus_detector 0x2B (power_on\<lparr>at_plus_state := ATP_WAIT_FOR_PLUS1, at_plus_counter := 0\<rparr>)) \<and>
   at_plus_state (at_plus_detector 0x2B (power_on\<lparr>at_plus_state := ATP_WAIT_FOR_PLUS1, at_plus_counter := 0\<rparr>))
     = ATP_WAIT_FOR_PLUS2 \<and>
   at_plus_counter (at_plus_detector 0x2B (power_on\<lparr>at_plus_state := ATP_WAIT_FOR_PLUS1, at_plus_counter := 0\<rparr>)) = 0"
proof -
  let ?s1 = "power_on\<lparr>at_plus_state := ATP_WAIT_FOR_PLUS1, at_plus_counter := 0\<rparr>"
  have "reach demo_env power_on"
    by (rule reach_init) (simp_all add: power_on_def ATP_defs)
  moreover have "ticks demo_env 100 power_on = Returns ?s1"
    by (intro ticks_idle_expire) (simp_all add: power_on_def ATP_defs)
  ultimately have "reach demo_env ?s1" by (rule reach_ticks)
  then have r: "reach demo_env (at_plus_detector 0x2B ?s1)" by (rule reach_byte)
  have st: "at_plus_state (at_plus_detector 0x2B ?s1) = ATP_WAIT_FOR_PLUS2"
    by (simp add: detector_plus_1)
  from collecting_pluses_counter_stopped [OF r] st
  have "at_plus_counter (at_plus_detector 0x2B ?s1) = 0" by blast
  with r st show ?thesis by blast
qed

subsection \<open>The line editor\<close>

text \<open>
  C2. With the buffer full (length equal to \<open>AT_CMD_MAXLEN\<close>), a byte that is neither
  carriage return nor backspace nor delete, printable or not, clears the mode flag and
  sets the length to 0; nothing is sent to the host and nothing else changes.
\<close>

theorem at_input_overflow:
  assumes "unat (at_cmd_len s) = AT_CMD_MAXLEN ev"
    and "c \<noteq> 0x0D" and "c \<noteq> 0x08" and "c \<noteq> 0x7F"
  shows "\<exists>s'. at_input ev c s = Returns s' \<and> \<not> at_mode_active s' \<and> at_cmd_len s' = 0 \<and>
              console s' = console s \<and> s' = s\<lparr>at_mode_active := False, at_cmd_len := 0\<rparr>"
  using assms by (simp add: at_input_def)

theorem at_input_overflow_witness:
  "unat (at_cmd_len (cmd_state ''ATS1=123456789AB'')) = AT_CMD_MAXLEN demo_env \<and>
   (0x43 :: u8) \<noteq> 0x0D \<and> (0x43 :: u8) \<noteq> 0x08 \<and> (0x43 :: u8) \<noteq> 0x7F \<and>
   (\<exists>s'. at_input demo_env 0x43 (cmd_state ''ATS1=123456789AB'') = Returns s' \<and>
         \<not> at_mode_active s' \<and> at_cmd_len s' = 0 \<and>
         console s' = console (cmd_state ''ATS1=123456789AB''))"
proof -
  have h: "unat (at_cmd_len (cmd_state ''ATS1=123456789AB'')) = AT_CMD_MAXLEN demo_env"
    by (simp add: cmd_state_def demo_env_def)
  have c: "(0x43 :: u8) \<noteq> 0x0D" "(0x43 :: u8) \<noteq> 0x08" "(0x43 :: u8) \<noteq> 0x7F" by simp_all
  from at_input_overflow [OF h c] h c show ?thesis by blast
qed

subsection \<open>The numeric lexer\<close>

lemma step32_of_nat: "isdigit d \<Longrightarrow> step32 (of_nat a) d = of_nat (10 * a + (unat d - 48))"
proof -
  assume "isdigit d"
  then have "0x30 \<le> d" by (simp add: isdigit_def)
  then have "unat (d - 0x30) = unat d - 48" by (simp add: unat_sub)
  then have "(ucast (d - 0x30) :: u32) = of_nat (unat d - 48)"
    by (metis of_nat_unat)
  then show ?thesis by (simp add: step32_def)
qed

lemma foldl_step32:
  "\<forall>d \<in> set ds. isdigit d \<Longrightarrow>
   foldl step32 (of_nat a) ds = of_nat (foldl (\<lambda>a d. 10 * a + (unat d - 48)) a ds)"
proof (induction ds arbitrary: a)
  case Nil
  then show ?case by simp
next
  case (Cons d ds)
  then have "step32 (of_nat a) d = of_nat (10 * a + (unat d - 48))"
    by (simp add: step32_of_nat)
  with Cons show ?case by (simp del: of_nat_add of_nat_mult)
qed

lemma run_in_buffer:
  assumes "i \<le> j" "j < length buf" "\<not> isdigit (buf ! j)"
  shows "\<exists>x rest. drop i buf = digit_run buf i @ x # rest \<and> \<not> isdigit x"
proof -
  have "j - i < length (drop i buf)" using assms by simp
  moreover have "drop i buf ! (j - i) = buf ! j" using assms by simp
  ultimately have "buf ! j \<in> set (drop i buf)" by (metis nth_mem)
  with assms(3) have "dropWhile isdigit (drop i buf) \<noteq> []"
    by (auto simp: dropWhile_eq_Nil_conv)
  then obtain x rest where d: "dropWhile isdigit (drop i buf) = x # rest"
    by (cases "dropWhile isdigit (drop i buf)") auto
  have "\<not> isdigit (hd (dropWhile isdigit (drop i buf)))"
    using \<open>dropWhile isdigit (drop i buf) \<noteq> []\<close> by (rule hd_dropWhile)
  with d have nd: "\<not> isdigit x" by simp
  have "takeWhile isdigit (drop i buf) @ dropWhile isdigit (drop i buf) = drop i buf"
    by (rule takeWhile_dropWhile_id)
  with d have "drop i buf = digit_run buf i @ x # rest"
    by (simp add: digit_run_def)
  with nd show ?thesis by blast
qed

lemma parse_loop_run:
  "drop (unat i) buf = ds @ x # rest \<Longrightarrow> \<forall>d \<in> set ds. isdigit d \<Longrightarrow> \<not> isdigit x \<Longrightarrow>
   unat i + length ds \<le> 255 \<Longrightarrow>
   parse_loop buf i reg = Some (Inr (foldl step32 reg ds, i + of_nat (length ds)))"
proof (induction ds arbitrary: i reg)
  case Nil
  then have lt: "unat i < length buf" by (cases "unat i < length buf") auto
  then have "buf ! unat i = hd (drop (unat i) buf)" by (simp add: hd_drop_conv_nth)
  with Nil have "buf ! unat i = x" by simp
  with lt Nil show ?case by (subst parse_loop.simps) (simp add: rd_def)
next
  case (Cons d ds)
  then have lt: "unat i < length buf" by (cases "unat i < length buf") auto
  then have "buf ! unat i = hd (drop (unat i) buf)" by (simp add: hd_drop_conv_nth)
  with Cons.prems have hd: "buf ! unat i = d" by simp
  from Cons.prems have i1: "unat (i + 1) = Suc (unat i)"
    by (simp add: unat_word_ariths)
  have "drop (Suc (unat i)) buf = tl (drop (unat i) buf)" by (simp add: drop_Suc tl_drop)
  with Cons.prems(1) i1 have "drop (unat (i + 1)) buf = ds @ x # rest" by simp
  with Cons.IH [of "i + 1" "step32 reg d"] Cons.prems i1
  have "parse_loop buf (i + 1) (step32 reg d) =
          Some (Inr (foldl step32 (step32 reg d) ds, i + 1 + of_nat (length ds)))"
    by simp
  with lt hd Cons.prems show ?case
    by (subst parse_loop.simps) (simp add: rd_def step32_def add.assoc)
qed

lemma digit_run_digits: "\<forall>d \<in> set (digit_run buf i). isdigit d"
  by (auto simp: digit_run_def dest: set_takeWhileD)

lemma parse_loop_digit_run:
  assumes len: "length buf \<le> 256"
    and stop: "unat i \<le> j" "j < length buf" "\<not> isdigit (buf ! j)"
  shows "parse_loop buf i 0 =
           Some (Inr (of_nat (decimal_value (digit_run buf (unat i))),
                      i + of_nat (length (digit_run buf (unat i)))))"
    and "unat (i + of_nat (length (digit_run buf (unat i)))) =
           unat i + length (digit_run buf (unat i))"
    and "unat i + length (digit_run buf (unat i)) < length buf"
    and "\<not> isdigit (buf ! (unat i + length (digit_run buf (unat i))))"
proof -
  let ?r = "digit_run buf (unat i)"
  from run_in_buffer [OF stop] obtain x rest where
    d: "drop (unat i) buf = ?r @ x # rest" and x: "\<not> isdigit x" by blast
  have "length (drop (unat i) buf) = length ?r + Suc (length rest)"
    by (subst d) simp
  then show in_buf: "unat i + length ?r < length buf" by simp
  with len have b: "unat i + length ?r \<le> 255" by simp
  have "foldl step32 (of_nat 0) ?r = of_nat (foldl (\<lambda>a d. 10 * a + (unat d - 48)) 0 ?r)"
    by (rule foldl_step32) (rule digit_run_digits)
  then have "foldl step32 0 ?r = of_nat (decimal_value ?r)"
    by (simp add: decimal_value_def)
  with parse_loop_run [OF d digit_run_digits x b, of 0]
  show "parse_loop buf i 0 = Some (Inr (of_nat (decimal_value ?r), i + of_nat (length ?r)))"
    by simp
  from b show "unat (i + of_nat (length ?r)) = unat i + length ?r"
    by (simp add: unat_word_ariths unat_of_nat)
  have "buf ! (unat i + length ?r) = drop (unat i) buf ! length ?r"
    using in_buf by simp
  also have "\<dots> = x" by (subst d) simp
  finally show "\<not> isdigit (buf ! (unat i + length ?r))" using x by simp
qed

text \<open>
  C5. Let the buffer have at most 256 cells (the cursor is eight bits wide) and hold a
  character that is not a digit at or after the cursor, as the terminator of every line
  is. Then \<open>at_parse_number\<close> returns; the cursor has advanced by the length of the
  longest run of digits that starts at it, without wrapping, and rests on the first
  character that is not a digit; the value is the decimal reading of the run modulo
  \<open>2 ^ 32\<close>. If the character at the cursor is no digit, the value is 0 and the state
  is unchanged.
\<close>

theorem at_parse_number_decimal:
  assumes "length (at_cmd s) \<le> 256"
    and "unat (idx s) \<le> j" and "j < length (at_cmd s)" and "\<not> isdigit (at_cmd s ! j)"
  shows "at_parse_number s =
           Returns (of_nat (decimal_value (digit_run (at_cmd s) (unat (idx s)))),
                    s\<lparr>idx := idx s + of_nat (length (digit_run (at_cmd s) (unat (idx s))))\<rparr>) \<and>
         unat (of_nat (decimal_value (digit_run (at_cmd s) (unat (idx s)))) :: u32) =
           decimal_value (digit_run (at_cmd s) (unat (idx s))) mod 2 ^ 32 \<and>
         unat (idx s + of_nat (length (digit_run (at_cmd s) (unat (idx s))))) =
           unat (idx s) + length (digit_run (at_cmd s) (unat (idx s))) \<and>
         unat (idx s) + length (digit_run (at_cmd s) (unat (idx s))) < length (at_cmd s) \<and>
         \<not> isdigit (at_cmd s ! (unat (idx s) + length (digit_run (at_cmd s) (unat (idx s))))) \<and>
         (\<forall>k < length (digit_run (at_cmd s) (unat (idx s))).
             isdigit (at_cmd s ! (unat (idx s) + k))) \<and>
         (\<not> isdigit (at_cmd s ! unat (idx s)) \<longrightarrow> at_parse_number s = Returns (0, s))"
proof -
  let ?r = "digit_run (at_cmd s) (unat (idx s))"
  note p = parse_loop_digit_run [OF assms]
  have ret: "at_parse_number s =
      Returns (of_nat (decimal_value ?r), s\<lparr>idx := idx s + of_nat (length ?r)\<rparr>)"
    by (simp add: at_parse_number_def p(1))
  have digs: "\<forall>k < length ?r. isdigit (at_cmd s ! (unat (idx s) + k))"
  proof (intro allI impI)
    fix k assume k: "k < length ?r"
    then have "?r ! k = drop (unat (idx s)) (at_cmd s) ! k"
      unfolding digit_run_def by (simp add: takeWhile_nth)
    also have "\<dots> = at_cmd s ! (unat (idx s) + k)" using k p(3) by simp
    finally show "isdigit (at_cmd s ! (unat (idx s) + k))"
      using digit_run_digits [of "at_cmd s" "unat (idx s)"] k by (metis nth_mem)
  qed
  have none: "\<not> isdigit (at_cmd s ! unat (idx s)) \<longrightarrow> at_parse_number s = Returns (0, s)"
  proof
    assume nd: "\<not> isdigit (at_cmd s ! unat (idx s))"
    have "?r = []"
    proof (rule ccontr)
      assume "?r \<noteq> []"
      then have "0 < length ?r" by simp
      with digs have "isdigit (at_cmd s ! (unat (idx s) + 0))" by blast
      with nd show False by simp
    qed
    with ret show "at_parse_number s = Returns (0, s)" by (simp add: decimal_value_def)
  qed
  show ?thesis using ret p(2,3,4) digs none by (simp add: unat_of_nat)
qed

theorem at_parse_number_decimal_witness:
  "length (at_cmd ((cmd_state ''ATS12=345'')\<lparr>idx := 3\<rparr>)) \<le> 256 \<and>
   unat (idx ((cmd_state ''ATS12=345'')\<lparr>idx := 3\<rparr>)) \<le> 5 \<and>
   5 < length (at_cmd ((cmd_state ''ATS12=345'')\<lparr>idx := 3\<rparr>)) \<and>
   \<not> isdigit (at_cmd ((cmd_state ''ATS12=345'')\<lparr>idx := 3\<rparr>) ! 5) \<and>
   at_parse_number ((cmd_state ''ATS12=345'')\<lparr>idx := 3\<rparr>) =
     Returns (12, (cmd_state ''ATS12=345'')\<lparr>idx := 5\<rparr>)"
  using at_parse_number_decimal [of "(cmd_state ''ATS12=345'')\<lparr>idx := 3\<rparr>" 5]
  by (simp add: cmd_state_def power_on_def bytes_def isdigit_def digit_run_def decimal_value_def)

subsection \<open>Evaluating the model on concrete lines\<close>

lemmas eval_defs = cmd_state_def power_on_def bytes_def demo_env_def at_command_def has_prefix_def
  on_test_def on_char_def on_number_def rd_def wr_def at_local_def at_remote_def unlock_def
  at_ok_def at_error_def emit_def at_s_def at_parse_number_def parse_loop.simps isdigit_def
  call_collab_def Let_def at_i_def at_p_def at_plus_def at_ampersand_def lit_PDATE_def
  lit_RSSI_def lit_TDM_def

subsection \<open>The register commands\<close>

lemma at_parse_number_at:
  assumes inv: "at_inv ev s" and i: "i \<le> AT_CMD_MAXLEN ev"
  shows "at_parse_number (s\<lparr>idx := of_nat i\<rparr>) =
           Returns (of_nat (decimal_value (digit_run (at_cmd s) i)),
                    s\<lparr>idx := of_nat (i + length (digit_run (at_cmd s) i))\<rparr>)"
    and "i + length (digit_run (at_cmd s) i) \<le> AT_CMD_MAXLEN ev"
    and "\<not> isdigit (at_cmd s ! (i + length (digit_run (at_cmd s) i)))"
proof -
  let ?m = "AT_CMD_MAXLEN ev"
  from inv have m: "?m \<le> 255" and len: "length (at_cmd s) = ?m + 1"
    and z: "at_cmd s ! ?m = 0" by (simp_all add: at_inv_def)
  have ui: "unat (of_nat i :: u8) = i" using i m by (simp add: unat_of_nat)
  have a: "length (at_cmd s) \<le> 256" using len m by simp
  have b: "unat (of_nat i :: u8) \<le> ?m" using ui i by simp
  have c: "?m < length (at_cmd s)" using len by simp
  have d: "\<not> isdigit (at_cmd s ! ?m)" using z by (simp add: isdigit_def)
  note p = parse_loop_digit_run [OF a b c d]
  show "at_parse_number (s\<lparr>idx := of_nat i\<rparr>) =
           Returns (of_nat (decimal_value (digit_run (at_cmd s) i)),
                    s\<lparr>idx := of_nat (i + length (digit_run (at_cmd s) i))\<rparr>)"
    using p(1) by (simp add: at_parse_number_def ui)
  show "i + length (digit_run (at_cmd s) i) \<le> ?m" using p(3) len by (simp add: ui)
  show "\<not> isdigit (at_cmd s ! (i + length (digit_run (at_cmd s) i)))" using p(4) by (simp add: ui)
qed

lemma ats_first:
  assumes inv: "at_inv ev s" and m3: "3 \<le> AT_CMD_MAXLEN ev"
  shows "at_parse_number (s\<lparr>idx := 3\<rparr>) =
           Returns (of_nat (ats_number s), s\<lparr>idx := of_nat (ats_pos s)\<rparr>)"
    and "ats_pos s \<le> AT_CMD_MAXLEN ev"
  using at_parse_number_at [OF inv m3] by (simp_all add: ats_number_def ats_pos_def)

lemma ucast_of_nat_u8: "(ucast (of_nat n :: u32) :: u8) = of_nat n"
proof -
  have "take_bit 8 (take_bit 32 n) = take_bit 8 n" by simp
  then show ?thesis
    by (simp add: unsigned_of_nat word_of_nat_eq_iff del: take_bit_take_bit)
qed

lemma at_command_local:
  assumes "at_cmd_ready s" and "2 \<le> at_cmd_len s" and "3 \<le> length (at_cmd s)"
    and "at_cmd s ! 0 = 0x41" and "at_cmd s ! 1 = 0x54"
  shows "at_command ev s = unlock (at_local ev s)"
  using assms by (auto simp add: at_command_def has_prefix_def on_test_def rd_def)

lemma at_s_replies:
  assumes inv: "at_inv ev s" and m3: "3 \<le> AT_CMD_MAXLEN ev"
  shows "(PARAM_MAX ev \<le> unat (ats_index s) \<longrightarrow>
            (\<exists>s'. at_s ev s = Returns s' \<and>
                  console s' = console s @ [Print_ERROR (nodeId ev (world s))])) \<and>
         (unat (ats_index s) < PARAM_MAX ev \<and> at_cmd s ! ats_pos s = 0x3F \<longrightarrow>
            (\<exists>s'. at_s ev s = Returns s' \<and>
                  console s' = console s @
                    [Called (Param_get (ats_index s)) (fst (collab ev (Param_get (ats_index s)) (world s))),
                     Print_num (nodeId ev (snd (collab ev (Param_get (ats_index s)) (world s))))
                       (fst (collab ev (Param_get (ats_index s)) (world s)))])) \<and>
         (unat (ats_index s) < PARAM_MAX ev \<and> at_cmd s ! ats_pos s = 0x3D \<and> ats_index s \<noteq> 0 \<longrightarrow>
            (\<exists>s'. at_s ev s = Returns s' \<and>
                  console s' = console s @
                    [Called (Param_set (ats_index s) (ats_value s))
                       (fst (collab ev (Param_set (ats_index s) (ats_value s)) (world s))),
                     if fst (collab ev (Param_set (ats_index s) (ats_value s)) (world s)) \<noteq> 0
                     then Print_OK (nodeId ev (snd (collab ev (Param_set (ats_index s) (ats_value s)) (world s))))
                     else Print_ERROR (nodeId ev (snd (collab ev (Param_set (ats_index s) (ats_value s)) (world s))))])) \<and>
         (unat (ats_index s) < PARAM_MAX ev \<and>
          (at_cmd s ! ats_pos s = 0x3D \<and> ats_index s = 0 \<or>
           at_cmd s ! ats_pos s \<noteq> 0x3D \<and> at_cmd s ! ats_pos s \<noteq> 0x3F) \<longrightarrow>
            (\<exists>s'. at_s ev s = Returns s' \<and>
                  console s' = console s @ [Print_ERROR (nodeId ev (world s))]))"
proof -
  let ?m = "AT_CMD_MAXLEN ev"
  let ?s1 = "s\<lparr>idx := of_nat (ats_pos s)\<rparr>"
  note f = ats_first [OF inv m3]
  from inv have m: "?m \<le> 255" and len: "length (at_cmd s) = ?m + 1"
    and z: "at_cmd s ! ?m = 0" by (simp_all add: at_inv_def)
  have up: "unat (of_nat (ats_pos s) :: u8) = ats_pos s"
    using f(2) m by (simp add: unat_of_nat)
  have r: "rd (at_cmd s) (ats_pos s) = Some (at_cmd s ! ats_pos s)"
    using f(2) len by (simp add: rd_def)
  have sreg: "(ucast (of_nat (ats_number s) :: u32) :: u8) = ats_index s"
    by (simp add: ats_index_def ucast_of_nat_u8)
  have second: "at_cmd s ! ats_pos s = 0x3D \<Longrightarrow>
      at_parse_number (?s1\<lparr>idx := of_nat (ats_pos s) + 1\<rparr>) =
        Returns (ats_value s, s\<lparr>idx := of_nat (ats_pos s + 1 + length (digit_run (at_cmd s) (ats_pos s + 1)))\<rparr>)"
  proof -
    assume e: "at_cmd s ! ats_pos s = 0x3D"
    have "ats_pos s \<noteq> ?m" using e z by auto
    with f(2) have "ats_pos s + 1 \<le> ?m" by simp
    from at_parse_number_at(1) [OF inv this]
    have "at_parse_number (s\<lparr>idx := of_nat (ats_pos s + 1)\<rparr>) =
        Returns (ats_value s, s\<lparr>idx := of_nat (ats_pos s + 1 + length (digit_run (at_cmd s) (ats_pos s + 1)))\<rparr>)"
      by (simp only: ats_value_def)
    moreover have "?s1\<lparr>idx := of_nat (ats_pos s) + 1\<rparr> = s\<lparr>idx := of_nat (ats_pos s + 1)\<rparr>"
      by simp
    ultimately show ?thesis by (simp only:)
  qed
  show ?thesis
    using f(1) r sreg second
    by (auto simp add: at_s_def on_number_def on_char_def Let_def up at_error_def at_ok_def
        emit_def call_collab_def split_def word_gt_0)
qed

text \<open>
  What the code does on a ready line that begins "ATS", with the number at offset 3 cut to
  its low eight bits as the handler stores it.
\<close>

lemma register_command_replies:
  assumes inv: "at_inv ev s" and m3: "3 \<le> AT_CMD_MAXLEN ev"
    and line: "at_cmd_ready s" "2 \<le> at_cmd_len s"
      "at_cmd s ! 0 = 0x41" "at_cmd s ! 1 = 0x54" "at_cmd s ! 2 = 0x53"
  shows "at_command ev s = unlock (at_s ev s) \<and>
         ats_index s = of_nat (ats_number s mod 256) \<and>
         (PARAM_MAX ev \<le> unat (ats_index s) \<longrightarrow>
            (\<exists>s'. at_s ev s = Returns s' \<and>
                  console s' = console s @ [Print_ERROR (nodeId ev (world s))])) \<and>
         (unat (ats_index s) < PARAM_MAX ev \<and> at_cmd s ! ats_pos s = 0x3F \<longrightarrow>
            (\<exists>s'. at_s ev s = Returns s' \<and>
                  console s' = console s @
                    [Called (Param_get (ats_index s)) (fst (collab ev (Param_get (ats_index s)) (world s))),
                     Print_num (nodeId ev (snd (collab ev (Param_get (ats_index s)) (world s))))
                       (fst (collab ev (Param_get (ats_index s)) (world s)))])) \<and>
         (unat (ats_index s) < PARAM_MAX ev \<and> at_cmd s ! ats_pos s = 0x3D \<and> ats_index s \<noteq> 0 \<longrightarrow>
            (\<exists>s'. at_s ev s = Returns s' \<and>
                  console s' = console s @
                    [Called (Param_set (ats_index s) (ats_value s))
                       (fst (collab ev (Param_set (ats_index s) (ats_value s)) (world s))),
                     if fst (collab ev (Param_set (ats_index s) (ats_value s)) (world s)) \<noteq> 0
                     then Print_OK (nodeId ev (snd (collab ev (Param_set (ats_index s) (ats_value s)) (world s))))
                     else Print_ERROR (nodeId ev (snd (collab ev (Param_set (ats_index s) (ats_value s)) (world s))))])) \<and>
         (unat (ats_index s) < PARAM_MAX ev \<and>
          (at_cmd s ! ats_pos s = 0x3D \<and> ats_index s = 0 \<or>
           at_cmd s ! ats_pos s \<noteq> 0x3D \<and> at_cmd s ! ats_pos s \<noteq> 0x3F) \<longrightarrow>
            (\<exists>s'. at_s ev s = Returns s' \<and>
                  console s' = console s @ [Print_ERROR (nodeId ev (world s))]))"
proof -
  from inv m3 have len: "3 \<le> length (at_cmd s)" by (simp add: at_inv_def)
  then have "at_local ev s = at_s ev s"
    using line(5) by (simp add: at_local_def on_char_def rd_def)
  with at_command_local [OF line(1,2) len line(3,4), of ev]
  have a: "at_command ev s = unlock (at_s ev s)" by simp
  have "(of_nat (ats_number s mod 256) :: u8) = of_nat (ats_number s)"
    by (simp add: word_of_nat_eq_iff take_bit_eq_mod)
  then have b: "ats_index s = of_nat (ats_number s mod 256)" by (simp add: ats_index_def)
  from a b at_s_replies [OF inv m3] show ?thesis by (intro conjI) blast+
qed

text \<open>
  C4. On a ready line that begins "ATS" a register index of \<open>PARAM_MAX\<close> or more is to be
  answered with ERROR; below it, '?' prints the value and '=' is answered OK exactly when
  the index is not 0 and the store accepts the value. The code breaks the first part for
  an index of 256 or more: it stores the parsed number in eight bits before it compares
  it with \<open>PARAM_MAX\<close>. In "ATS257=5" the number at offset 3 is 257, above
  \<open>PARAM_MAX = 20\<close>, and yet register 1 is written and the reply is OK.
\<close>

theorem register_index_narrowed:
  "ats_number (cmd_state ''ATS257=5'') = 257 \<and> PARAM_MAX demo_env \<le> 257 \<and>
   at_command demo_env (cmd_state ''ATS257=5'') =
     Returns ((cmd_state ''ATS257=5'')\<lparr>idx := 8,
        console := [Called (Param_set 1 5) 1, Print_OK 1],
        at_cmd_len := 0, at_cmd_ready := False\<rparr>)"
  by (simp add: eval_defs ats_number_def digit_run_def decimal_value_def)

subsection \<open>The pin commands\<close>

lemma pins_used_append: "pins_used (xs @ ys) = pins_used xs @ pins_used ys"
  by (simp add: pins_used_def List.map_filter_def)

lemma pin_report_console:
  "\<exists>es. console (pin_report ev i s) = console s @ es \<and> (\<forall>p \<in> set (pins_used es). p = of_nat i)"
  by (simp add: pin_report_def Let_def split_def emit_def call_collab_def pins_used_def)

lemma pin_dump_console:
  "\<exists>es. console (fold (pin_report ev) xs s) = console s @ es \<and>
        (\<forall>p \<in> set (pins_used es). \<exists>i \<in> set xs. p = of_nat i)"
proof (induction xs arbitrary: s)
  case Nil
  show ?case by (simp add: pins_used_def)
next
  case (Cons x xs)
  from pin_report_console [of ev x s] obtain e1 where
    e1: "console (pin_report ev x s) = console s @ e1" "\<forall>p \<in> set (pins_used e1). p = of_nat x"
    by blast
  from Cons.IH [of "pin_report ev x s"] obtain e2 where
    e2: "console (fold (pin_report ev) xs (pin_report ev x s)) = console (pin_report ev x s) @ e2"
      "\<forall>p \<in> set (pins_used e2). \<exists>i \<in> set xs. p = of_nat i"
    by blast
  have "console (fold (pin_report ev) (x # xs) s) = console s @ (e1 @ e2)"
    using e1(1) e2(1) by simp
  moreover have "\<forall>p \<in> set (pins_used (e1 @ e2)). \<exists>i \<in> set (x # xs). p = of_nat i"
    using e1(2) e2(2) by (auto simp: pins_used_append)
  ultimately show ?case by blast
qed

lemma at_p_dump:
  assumes "4 \<le> length (at_cmd s)" "at_cmd s ! 3 = 0x50" "PIN_MAX ev \<le> 255"
  shows "\<exists>s' es. at_p ev s = Returns s' \<and> console s' = console s @ es \<and>
           (\<forall>p \<in> set (pins_used es). unat p < PIN_MAX ev)"
proof -
  have r: "rd (at_cmd s) 3 = Some (at_cmd s ! 3)" using assms by (simp add: rd_def)
  from pin_dump_console [of ev "[0..<PIN_MAX ev]" s] obtain es where
    es: "console (fold (pin_report ev) [0..<PIN_MAX ev] s) = console s @ es"
      "\<forall>p \<in> set (pins_used es). \<exists>i \<in> set [0..<PIN_MAX ev]. p = of_nat i" by blast
  have "\<forall>p \<in> set (pins_used es). unat p < PIN_MAX ev"
  proof
    fix p :: u8 assume "p \<in> set (pins_used es)"
    with es(2) obtain i where i: "i < PIN_MAX ev" "p = of_nat i" by auto
    with assms(3) have "unat p = i" by (simp add: unat_of_nat)
    with i show "unat p < PIN_MAX ev" by simp
  qed
  with es(1) show ?thesis using assms by (simp add: at_p_def r on_char_def)
qed

lemma at_p_pins:
  assumes "8 \<le> length (at_cmd s)" "at_cmd s ! 3 \<noteq> 0x50"
  shows "\<exists>s' es. at_p ev s = Returns s' \<and> console s' = console s @ es \<and>
           (\<forall>p \<in> set (pins_used es). at_cmd s ! 4 = 0x3D \<and> isdigit (at_cmd s ! 5) \<and>
               p = at_cmd s ! 5 - 0x30 \<and> p \<le> 9)"
proof -
  have r: "rd (at_cmd s) 3 = Some (at_cmd s ! 3)" "rd (at_cmd s) 4 = Some (at_cmd s ! 4)"
    "rd (at_cmd s) 5 = Some (at_cmd s ! 5)" "rd (at_cmd s) 7 = Some (at_cmd s ! 7)"
    using assms by (simp_all add: rd_def)
  have d: "isdigit (at_cmd s ! 5) \<Longrightarrow> at_cmd s ! 5 - 0x30 \<le> 9"
    unfolding isdigit_def by unat_arith
  show ?thesis
    using assms(2) d
    by (auto simp add: at_p_def r on_char_def Let_def at_error_def at_ok_def emit_def
        call_collab_def split_def pins_used_def)
qed

text \<open>
  C8 (as amended). In ATPO, ATPI, ATPR and ATPC every pin I/O operation is called with
  the value of the single character at position 5, which has been checked to be a decimal
  digit after an '=' at position 4; the index is therefore at most 9. It is not compared
  with \<open>PIN_MAX\<close>. Only the dump ATPP is bounded by \<open>PIN_MAX\<close>: it uses the indices below it.
\<close>

theorem pin_index_is_one_digit:
  assumes "8 \<le> length (at_cmd s)"
  shows "(at_cmd s ! 3 \<noteq> 0x50 \<longrightarrow>
           (\<exists>s' es. at_p ev s = Returns s' \<and> console s' = console s @ es \<and>
              (\<forall>p \<in> set (pins_used es). at_cmd s ! 4 = 0x3D \<and> isdigit (at_cmd s ! 5) \<and>
                  p = at_cmd s ! 5 - 0x30 \<and> p \<le> 9))) \<and>
         (at_cmd s ! 3 = 0x50 \<and> PIN_MAX ev \<le> 255 \<longrightarrow>
           (\<exists>s' es. at_p ev s = Returns s' \<and> console s' = console s @ es \<and>
              (\<forall>p \<in> set (pins_used es). unat p < PIN_MAX ev)))"
proof (intro conjI impI)
  assume "at_cmd s ! 3 \<noteq> 0x50"
  with assms show "\<exists>s' es. at_p ev s = Returns s' \<and> console s' = console s @ es \<and>
      (\<forall>p \<in> set (pins_used es). at_cmd s ! 4 = 0x3D \<and> isdigit (at_cmd s ! 5) \<and>
          p = at_cmd s ! 5 - 0x30 \<and> p \<le> 9)"
    by (rule at_p_pins)
next
  assume a: "at_cmd s ! 3 = 0x50 \<and> PIN_MAX ev \<le> 255"
  from assms have "4 \<le> length (at_cmd s)" by simp
  with a show "\<exists>s' es. at_p ev s = Returns s' \<and> console s' = console s @ es \<and>
      (\<forall>p \<in> set (pins_used es). unat p < PIN_MAX ev)"
    by (intro at_p_dump) simp_all
qed

theorem pin_index_is_one_digit_witness:
  "8 \<le> length (at_cmd (cmd_state ''ATPC=3,1'')) \<and> at_cmd (cmd_state ''ATPC=3,1'') ! 3 \<noteq> 0x50 \<and>
   (\<exists>s' es. at_p demo_env (cmd_state ''ATPC=3,1'') = Returns s' \<and>
        console s' = console (cmd_state ''ATPC=3,1'') @ es \<and>
        (\<forall>p \<in> set (pins_used es). p = 3))"
proof -
  let ?s = "cmd_state ''ATPC=3,1''"
  have h: "8 \<le> length (at_cmd ?s)" and n: "at_cmd ?s ! 3 \<noteq> 0x50"
    and d: "at_cmd ?s ! 5 - 0x30 = 3"
    by (simp_all add: cmd_state_def power_on_def bytes_def)
  from pin_index_is_one_digit [OF h, of demo_env] n obtain s' es where
    "at_p demo_env ?s = Returns s'" "console s' = console ?s @ es"
    "\<forall>p \<in> set (pins_used es). at_cmd ?s ! 4 = 0x3D \<and> isdigit (at_cmd ?s ! 5) \<and>
        p = at_cmd ?s ! 5 - 0x30 \<and> p \<le> 9"
    by blast
  with d have "\<exists>s' es. at_p demo_env ?s = Returns s' \<and> console s' = console ?s @ es \<and>
      (\<forall>p \<in> set (pins_used es). p = 3)" by auto
  with h n show ?thesis by blast
qed

text \<open>
  The claim as written fails: with \<open>PIN_MAX = 6\<close> the line "ATPO=9" sets the direction of
  pin 9 and is answered with OK.
\<close>

theorem pin_index_unchecked_counterexample:
  "at_command demo_env (cmd_state ''ATPO=9'') =
     Returns ((cmd_state ''ATPO=9'')\<lparr>console := [Called (Pins_user_set_io 9 1) 0, Print_OK 1],
        at_cmd_len := 0, at_cmd_ready := False\<rparr>) \<and>
   PIN_MAX demo_env \<le> unat (9 :: u8)"
  by (simp add: eval_defs)

subsection \<open>The dispatcher and the bounds of the buffer\<close>

lemma ends_Returns: "same_buffer s s' \<Longrightarrow> ends ev s (Returns s')"
  by (simp add: ends_def)

lemma ends_on_char:
  assumes "9 \<le> AT_CMD_MAXLEN ev \<Longrightarrow> i < length buf"
    and "i < length buf \<Longrightarrow> ends ev s (k (buf ! i))"
  shows "ends ev s (on_char (rd buf i) k)"
  using assms
  by (cases "i < length buf"; cases "9 \<le> AT_CMD_MAXLEN ev") (auto simp: on_char_def rd_def ends_def)

lemma ends_on_test:
  assumes "9 \<le> AT_CMD_MAXLEN ev \<Longrightarrow> x \<noteq> None"
    and "\<And>t. x = Some t \<Longrightarrow> ends ev s (k t)"
  shows "ends ev s (on_test x k)"
  using assms
  by (cases x; cases "9 \<le> AT_CMD_MAXLEN ev") (auto simp: on_test_def ends_def)

lemma parse_number_cases:
  assumes inv: "at_inv ev s0"
  shows "(\<exists>n j. at_parse_number s0 = Returns (n, s0\<lparr>idx := j\<rparr>) \<and> unat (idx s0) \<le> unat j \<and>
             unat j \<le> AT_CMD_MAXLEN ev \<and> \<not> isdigit (at_cmd s0 ! unat j)) \<or>
         (at_parse_number s0 = Faults ReadOOB \<and> AT_CMD_MAXLEN ev < unat (idx s0))"
proof (cases "unat (idx s0) \<le> AT_CMD_MAXLEN ev")
  case True
  let ?m = "AT_CMD_MAXLEN ev"
  from inv have m: "?m \<le> 255" and len: "length (at_cmd s0) = ?m + 1"
    and z: "at_cmd s0 ! ?m = 0" by (simp_all add: at_inv_def)
  have a: "length (at_cmd s0) \<le> 256" using len m by simp
  have c: "?m < length (at_cmd s0)" using len by simp
  have d: "\<not> isdigit (at_cmd s0 ! ?m)" using z by (simp add: isdigit_def)
  note p = parse_loop_digit_run [OF a True c d]
  let ?j = "idx s0 + of_nat (length (digit_run (at_cmd s0) (unat (idx s0))))"
  have "at_parse_number s0 =
      Returns (of_nat (decimal_value (digit_run (at_cmd s0) (unat (idx s0)))), s0\<lparr>idx := ?j\<rparr>)"
    using p(1) by (simp add: at_parse_number_def)
  moreover have "unat (idx s0) \<le> unat ?j" "unat ?j \<le> ?m" "\<not> isdigit (at_cmd s0 ! unat ?j)"
    using p(2,3,4) len by simp_all
  ultimately show ?thesis by blast
next
  case False
  with inv have "rd (at_cmd s0) (unat (idx s0)) = None" by (simp add: rd_def at_inv_def)
  then have "parse_loop (at_cmd s0) (idx s0) 0 = Some (Inl ReadOOB)"
    by (subst parse_loop.simps) simp
  with False show ?thesis by (simp add: at_parse_number_def)
qed

lemma ends_on_number:
  assumes inv: "at_inv ev s0"
    and room: "9 \<le> AT_CMD_MAXLEN ev \<Longrightarrow> unat (idx s0) \<le> AT_CMD_MAXLEN ev"
    and k: "\<And>n j. unat j \<le> AT_CMD_MAXLEN ev \<Longrightarrow> \<not> isdigit (at_cmd s0 ! unat j) \<Longrightarrow>
               ends ev s (k n (s0\<lparr>idx := j\<rparr>))"
  shows "ends ev s (on_number (at_parse_number s0) k)"
  using parse_number_cases [OF inv]
proof
  assume "\<exists>n j. at_parse_number s0 = Returns (n, s0\<lparr>idx := j\<rparr>) \<and> unat (idx s0) \<le> unat j \<and>
             unat j \<le> AT_CMD_MAXLEN ev \<and> \<not> isdigit (at_cmd s0 ! unat j)"
  then obtain n j where "at_parse_number s0 = Returns (n, s0\<lparr>idx := j\<rparr>)"
    "unat j \<le> AT_CMD_MAXLEN ev" "\<not> isdigit (at_cmd s0 ! unat j)" by blast
  with k [of j n] show ?thesis by (simp add: on_number_def)
next
  assume f: "at_parse_number s0 = Faults ReadOOB \<and> AT_CMD_MAXLEN ev < unat (idx s0)"
  with room have "AT_CMD_MAXLEN ev < 9" by (cases "9 \<le> AT_CMD_MAXLEN ev") auto
  with f show ?thesis by (simp add: on_number_def ends_def)
qed

lemma same_buffer_simps [simp]:
  "same_buffer s s"
  "same_buffer s (emit e t) = same_buffer s t"
  "same_buffer s (at_ok ev t) = same_buffer s t"
  "same_buffer s (at_error ev t) = same_buffer s t"
  "same_buffer s (snd (call_collab ev c t)) = same_buffer s t"
  "same_buffer s (t\<lparr>idx := i\<rparr>) = same_buffer s t"
  "same_buffer s (t\<lparr>at_testmode := m\<rparr>) = same_buffer s t"
  "same_buffer s (t\<lparr>world := w\<rparr>) = same_buffer s t"
  by (simp_all add: same_buffer_def emit_def at_ok_def at_error_def call_collab_def split_def Let_def)

lemma same_buffer_print_all [simp]:
  "same_buffer s (fold (\<lambda>i t. snd (call_collab ev (Param_print (of_nat i)) t)) xs t) = same_buffer s t"
  by (induction xs arbitrary: t) simp_all

lemma same_buffer_pin_report [simp]: "same_buffer s (pin_report ev i t) = same_buffer s t"
  by (simp add: pin_report_def Let_def split_def)

lemma same_buffer_pin_dump [simp]:
  "same_buffer s (fold (pin_report ev) xs t) = same_buffer s t"
  by (induction xs arbitrary: t) simp_all

lemma at_inv_idx [simp]: "at_inv ev (s\<lparr>idx := i\<rparr>) = at_inv ev s"
  by (simp add: at_inv_def)

lemma ends_if: "(c \<Longrightarrow> ends ev s x) \<Longrightarrow> (\<not> c \<Longrightarrow> ends ev s y) \<Longrightarrow> ends ev s (if c then x else y)"
  by simp

lemmas ends_intros = ends_on_char ends_on_test ends_if ends_Returns

lemma at_i_ends: "at_inv ev s \<Longrightarrow> ends ev s (at_i ev s)"
  unfolding at_i_def param_print_all_def Let_def split_def
  by (intro ends_intros; simp add: at_inv_def ends_def)

lemma at_p_ends: "at_inv ev s \<Longrightarrow> ends ev s (at_p ev s)"
  unfolding at_p_def Let_def split_def
  by (intro ends_intros; simp add: at_inv_def ends_def)

lemma str_eq_Some: "i + length lit < length buf \<Longrightarrow> str_eq buf i lit \<noteq> None"
  by (induction lit arbitrary: i) (auto simp: rd_def)

lemma at_ampersand_ends:
  "at_inv ev s \<Longrightarrow> \<not> (at_cmd s ! 3 = 0x55 \<and> str_eq (at_cmd s) 4 lit_PDATE = Some True) \<Longrightarrow>
   ends ev s (at_ampersand ev s)"
  unfolding at_ampersand_def Let_def split_def
  by (intro ends_intros str_eq_Some;
      simp add: at_inv_def ends_def lit_PDATE_def lit_RSSI_def lit_TDM_def)

lemma at_ampersand_halts:
  "3 < length (at_cmd s) \<Longrightarrow> at_cmd s ! 3 = 0x55 \<Longrightarrow> str_eq (at_cmd s) 4 lit_PDATE = Some True \<Longrightarrow>
   at_ampersand ev s = Halts (emit Read_code_fc00 s)"
  by (simp add: at_ampersand_def on_char_def rd_def on_test_def)

lemma next_in_buffer:
  assumes "at_inv ev s" "unat (j :: u8) \<le> AT_CMD_MAXLEN ev" "at_cmd s ! unat j \<noteq> 0"
  shows "unat (j + 1) \<le> AT_CMD_MAXLEN ev"
proof -
  from assms have "unat j \<noteq> AT_CMD_MAXLEN ev" by (auto simp: at_inv_def)
  with assms have "unat j < AT_CMD_MAXLEN ev" "AT_CMD_MAXLEN ev \<le> 255" by (simp_all add: at_inv_def)
  then show ?thesis by (simp add: unat_word_ariths)
qed

lemma at_s_ends: "at_inv ev s \<Longrightarrow> ends ev s (at_s ev s)"
  unfolding at_s_def Let_def split_def
  apply (intro ends_intros ends_on_number; (simp add: at_inv_def ends_def)?)
  apply (rule next_in_buffer [of ev s]; simp add: at_inv_def)
  done

lemma at_plus_ends: "at_inv ev s \<Longrightarrow> ends ev s (at_plus ev s)"
  unfolding at_plus_def Let_def split_def
  apply (intro ends_intros ends_on_number; (simp add: at_inv_def ends_def)?)
  apply (rule next_in_buffer [of ev s]; simp add: at_inv_def)
  done

lemma same_buffer_online [simp]:
  "same_buffer s (t\<lparr>at_plus_counter := c, at_mode_active := a\<rparr>) = same_buffer s t"
  "same_buffer s (id t) = same_buffer s t"
  by (simp_all add: same_buffer_def)

lemma at_local_ends:
  assumes inv: "at_inv ev s"
    and nh: "\<not> (at_cmd s ! 2 = 0x5A \<or>
               at_cmd s ! 2 = 0x26 \<and> at_cmd s ! 3 = 0x55 \<and> str_eq (at_cmd s) 4 lit_PDATE = Some True)"
  shows "ends ev s (at_local ev s)"
  unfolding at_local_def
  using assms
  by (intro ends_intros at_i_ends at_p_ends at_s_ends at_plus_ends at_ampersand_ends;
      simp add: at_inv_def)

lemma at_local_halts:
  assumes inv: "at_inv ev s" and m: "3 \<le> AT_CMD_MAXLEN ev"
    and h: "at_cmd s ! 2 = 0x5A \<or>
            at_cmd s ! 2 = 0x26 \<and> at_cmd s ! 3 = 0x55 \<and> str_eq (at_cmd s) 4 lit_PDATE = Some True"
  shows "\<exists>s'. at_local ev s = Halts s' \<and> same_buffer s s'"
proof -
  from inv m have len: "3 < length (at_cmd s)" by (simp add: at_inv_def)
  from h show ?thesis
  proof
    assume "at_cmd s ! 2 = 0x5A"
    with len show ?thesis by (simp add: at_local_def on_char_def rd_def)
  next
    assume a: "at_cmd s ! 2 = 0x26 \<and> at_cmd s ! 3 = 0x55 \<and> str_eq (at_cmd s) 4 lit_PDATE = Some True"
    with len have "at_local ev s = at_ampersand ev s" by (simp add: at_local_def on_char_def rd_def)
    with a len show ?thesis by (simp add: at_ampersand_halts)
  qed
qed

lemma rt_scan_result:
  "unat len < length buf \<Longrightarrow>
   \<exists>j. rt_scan buf len i = Some j \<and> unat j \<le> max (unat i) (unat len)"
proof (induction buf len i rule: rt_scan.induct)
  case (1 buf len i)
  show ?case
  proof (cases "len \<le> i")
    case True
    then show ?thesis by (simp add: rt_scan.simps [of buf len i])
  next
    case False
    then have lt: "i < len" by simp
    then have ui: "unat i < unat len" "unat (i + 1) = unat i + 1" by unat_arith+
    with "1.prems" have r: "rd buf (unat i) = Some (buf ! unat i)" by (simp add: rd_def)
    show ?thesis
    proof (cases "buf ! unat i = 0x2C")
      case True
      with False r show ?thesis by (simp add: rt_scan.simps [of buf len i])
    next
      case c: False
      from "1.IH" [OF False r c "1.prems"] obtain j where
        "rt_scan buf len (i + 1) = Some j" "unat j \<le> max (unat (i + 1)) (unat len)" by blast
      with False r c ui show ?thesis by (simp add: rt_scan.simps [of buf len i]) 
    qed
  qed
qed

lemma at_inv_write0:
  assumes "at_inv ev s" "i < length (at_cmd s)"
  shows "at_inv ev (s\<lparr>at_cmd := (at_cmd s)[i := 0]\<rparr>)"
  using assms by (cases "i = AT_CMD_MAXLEN ev") (simp_all add: at_inv_def)

lemma at_inv_unlock [simp]:
  "at_inv ev (s\<lparr>at_cmd_len := 0, at_cmd_ready := r\<rparr>) = at_inv ev (s\<lparr>at_cmd_len := 0\<rparr>)"
  "at_inv ev (emit e s) = at_inv ev s"
  "at_inv ev (snd (call_collab ev c s)) = at_inv ev s"
  by (simp_all add: at_inv_def emit_def call_collab_def split_def Let_def)

lemma at_inv_len0: "at_inv ev s \<Longrightarrow> at_inv ev (s\<lparr>at_cmd_len := 0\<rparr>)"
  by (simp add: at_inv_def)

lemma at_remote_result:
  assumes inv: "at_inv ev s"
  shows "(\<exists>s'. at_remote ev s = Returns s' \<and> at_inv ev s' \<and> at_cmd_len s' = 0 \<and> \<not> at_cmd_ready s') \<or>
         (at_remote ev s = Faults ReadOOB \<and> AT_CMD_MAXLEN ev < 3)"
proof -
  let ?m = "AT_CMD_MAXLEN ev"
  from inv have len: "length (at_cmd s) = ?m + 1" and l: "unat (at_cmd_len s) \<le> ?m"
    by (simp_all add: at_inv_def)
  from rt_scan_result [of "at_cmd_len s" "at_cmd s" 3] len l obtain j where
    j: "rt_scan (at_cmd s) (at_cmd_len s) 3 = Some j" "unat j \<le> max 3 (unat (at_cmd_len s))"
    by auto
  show ?thesis
  proof (cases "unat j < length (at_cmd s)")
    case False
    with j l len have "?m < 3" by simp
    with False j show ?thesis by (simp add: at_remote_def on_char_def rd_def)
  next
    case True
    let ?s1 = "s\<lparr>idx := j\<rparr>"
    show ?thesis
    proof (cases "at_cmd s ! unat j = 0x2C")
      case False
      with True j inv show ?thesis
        by (simp add: at_remote_def on_char_def rd_def Let_def at_inv_len0)
    next
      case c: True
      let ?s2 = "s\<lparr>at_cmd := (at_cmd s)[unat j := 0], idx := j + 1\<rparr>"
      have inv2: "at_inv ev ?s2" using at_inv_write0 [OF inv True] by (simp add: at_inv_def)
      have "unat j \<le> ?m" using True len by simp
      from next_in_buffer [OF inv this] c have j1: "unat (j + 1) \<le> ?m" by simp
      from parse_number_cases [OF inv2] j1 obtain n k where
        p: "at_parse_number ?s2 = Returns (n, ?s2\<lparr>idx := k\<rparr>)" by auto
      have "at_remote ev s =
          Returns ((snd (call_collab ev (Tdm_remote_at (ucast n)) (?s2\<lparr>idx := k\<rparr>)))
                     \<lparr>at_cmd_len := 0, at_cmd_ready := False\<rparr>)"
        using True j c p by (simp add: at_remote_def on_char_def rd_def wr_def Let_def on_number_def)
      moreover have "at_inv ev ((snd (call_collab ev (Tdm_remote_at (ucast n)) (?s2\<lparr>idx := k\<rparr>)))
                     \<lparr>at_cmd_len := 0, at_cmd_ready := False\<rparr>)"
        using inv2 by (simp add: at_inv_def call_collab_def split_def Let_def emit_def)
      ultimately show ?thesis by simp
    qed
  qed
qed

lemma has_prefix_eq:
  "2 \<le> length (at_cmd s) \<Longrightarrow>
   has_prefix s a b = Some (2 \<le> at_cmd_len s \<and> at_cmd s ! 0 = a \<and> at_cmd s ! 1 = b)"
  by (auto simp: has_prefix_def rd_def)

lemma same_buffer_inv: "same_buffer s s' \<Longrightarrow> at_inv ev s \<Longrightarrow> at_inv ev s'"
  by (simp add: same_buffer_def at_inv_def)

lemma at_local_outcome:
  assumes inv: "at_inv ev s"
  shows "cmd_ok ev (unlock (at_local ev s))"
proof (cases "at_cmd s ! 2 = 0x5A \<or>
               at_cmd s ! 2 = 0x26 \<and> at_cmd s ! 3 = 0x55 \<and> str_eq (at_cmd s) 4 lit_PDATE = Some True")
  case False
  from at_local_ends [OF inv False] inv show ?thesis
    by (auto simp: ends_def cmd_ok_def unlock_def same_buffer_def at_inv_def split: outcome.splits)
next
  case True
  show ?thesis
  proof (cases "3 \<le> AT_CMD_MAXLEN ev")
    case m: True
    from at_local_halts [OF inv m True] inv show ?thesis
      by (auto simp: cmd_ok_def unlock_def dest: same_buffer_inv)
  next
    case False
    with inv have len: "length (at_cmd s) = 3" by (simp add: at_inv_def)
    from True len inv show ?thesis
      by (auto simp: at_local_def on_char_def rd_def at_ampersand_def cmd_ok_def unlock_def
          at_inv_def emit_def)
  qed
qed

lemma at_command_ok:
  assumes inv: "at_inv ev s"
  shows "cmd_ok ev (at_command ev s)"
proof (cases "at_cmd_ready s")
  case False
  with inv show ?thesis by (simp add: at_command_def cmd_ok_def)
next
  case True
  from inv have len: "2 \<le> length (at_cmd s)" by (simp add: at_inv_def)
  show ?thesis
  proof (cases "2 \<le> at_cmd_len s \<and> at_cmd s ! 0 = 0x52 \<and> at_cmd s ! 1 = 0x54")
    case rt: True
    then have "at_command ev s = at_remote ev s"
      using True by (simp add: at_command_def has_prefix_eq [OF len] on_test_def)
    with at_remote_result [OF inv] show ?thesis by (auto simp: cmd_ok_def)
  next
    case nrt: False
    show ?thesis
    proof (cases "2 \<le> at_cmd_len s \<and> at_cmd s ! 0 = 0x41 \<and> at_cmd s ! 1 = 0x54")
      case True
      then have "at_command ev s = unlock (at_local ev s)"
        using \<open>at_cmd_ready s\<close> nrt by (simp add: at_command_def has_prefix_eq [OF len] on_test_def)
      with at_local_outcome [OF inv] show ?thesis by simp
    next
      case False
      then have "at_command ev s = Returns (s\<lparr>at_cmd_len := 0, at_cmd_ready := False\<rparr>)"
        using \<open>at_cmd_ready s\<close> nrt by (auto simp add: at_command_def has_prefix_eq [OF len] on_test_def)
      with inv show ?thesis by (simp add: cmd_ok_def at_inv_len0)
    qed
  qed
qed

lemma at_input_inv:
  assumes inv: "at_inv ev s"
  shows "\<exists>s'. at_input ev c s = Returns s' \<and> at_inv ev s'"
proof -
  let ?m = "AT_CMD_MAXLEN ev"
  from inv have m: "?m \<le> 255" and len: "length (at_cmd s) = ?m + 1"
    and l: "unat (at_cmd_len s) \<le> ?m" and z: "at_cmd s ! ?m = 0" and m2: "2 \<le> ?m"
    by (simp_all add: at_inv_def)
  have w: "\<And>v. wr (at_cmd s) (unat (at_cmd_len s)) v = Some ((at_cmd s)[unat (at_cmd_len s) := v])"
    using l len by (simp add: wr_def)
  have dec: "0 < at_cmd_len s \<Longrightarrow> unat (at_cmd_len s - 1) \<le> ?m"
  proof -
    assume "0 < at_cmd_len s"
    then have "at_cmd_len s \<noteq> 0" by (simp add: word_gt_0)
    then have "unat (at_cmd_len s - 1) = unat (at_cmd_len s) - 1" by (rule unat_minus_one)
    with l show ?thesis by simp
  qed
  have inc: "unat (at_cmd_len s) < ?m \<Longrightarrow> unat (at_cmd_len s + 1) \<le> ?m"
    using m by (simp add: unat_word_ariths)
  have cr: "(at_cmd s)[unat (at_cmd_len s) := 0] ! ?m = 0"
    using z len by (cases "unat (at_cmd_len s) = ?m") simp_all
  have app: "\<And>v. unat (at_cmd_len s) < ?m \<Longrightarrow> (at_cmd s)[unat (at_cmd_len s) := v] ! ?m = 0"
    using z by simp
  show ?thesis
    using m m2 len l z dec inc cr app
    by (simp add: at_input_def w Let_def emit_def at_inv_def)
qed

lemma at_timer_inv:
  assumes inv: "at_inv ev s"
  shows "\<exists>s'. at_timer ev s = Returns s' \<and> at_inv ev s'"
proof -
  let ?m = "AT_CMD_MAXLEN ev"
  from inv have m: "?m \<le> 255" and len: "length (at_cmd s) = ?m + 1"
    and l: "unat (at_cmd_len s) \<le> ?m" and z: "at_cmd s ! ?m = 0" and m2: "2 \<le> ?m"
    by (simp_all add: at_inv_def)
  have st: "stuff_AT (at_cmd s) = Some ((at_cmd s)[0 := 0x41, 1 := 0x54, 2 := 0])"
    using len m2 by (intro stuff_AT_ok) simp
  have last: "(at_cmd s)[0 := 0x41, 1 := 0x54, 2 := 0] ! ?m = 0"
    using z m2 len by (cases "?m = 2") simp_all
  show ?thesis
    using m m2 len l z last
    by (simp add: at_timer_def Let_def st emit_def at_inv_def)
qed

text \<open>
  C6. Let the buffer be well formed with at least ten cells and the two loop bounds be at
  most 255. For every ready line, one call of the dispatcher either does not return, on
  exactly the lines "ATZ..." and "AT&UPDATE", or it returns with the length reset to 0 and
  the ready flag cleared: on the remote path, for every local command, for an unknown
  third character, and for a line with neither prefix, which also leaves the console and
  everything else as it was.
\<close>

theorem dispatcher_always_unlocks:
  assumes inv: "at_inv ev s" and m9: "9 \<le> AT_CMD_MAXLEN ev"
    and pm: "PARAM_MAX ev \<le> 255" and pin: "PIN_MAX ev \<le> 255"
    and ready: "at_cmd_ready s"
  shows "(if never_returns s then \<exists>s'. at_command ev s = Halts s'
          else \<exists>s'. at_command ev s = Returns s' \<and> at_cmd_len s' = 0 \<and> \<not> at_cmd_ready s') \<and>
         (has_prefix s 0x52 0x54 = Some False \<and> has_prefix s 0x41 0x54 = Some False \<longrightarrow>
            at_command ev s = Returns (s\<lparr>at_cmd_len := 0, at_cmd_ready := False\<rparr>))"
proof -
  from inv have len: "2 \<le> length (at_cmd s)" by (simp add: at_inv_def)
  note hp = has_prefix_eq [OF len]
  have neither: "has_prefix s 0x52 0x54 = Some False \<and> has_prefix s 0x41 0x54 = Some False \<longrightarrow>
      at_command ev s = Returns (s\<lparr>at_cmd_len := 0, at_cmd_ready := False\<rparr>)"
    using ready by (simp add: at_command_def on_test_def)
  have main: "if never_returns s then \<exists>s'. at_command ev s = Halts s'
      else \<exists>s'. at_command ev s = Returns s' \<and> at_cmd_len s' = 0 \<and> \<not> at_cmd_ready s'"
  proof (cases "2 \<le> at_cmd_len s \<and> at_cmd s ! 0 = 0x52 \<and> at_cmd s ! 1 = 0x54")
    case rt: True
    then have c: "at_command ev s = at_remote ev s"
      using ready by (simp add: at_command_def hp on_test_def)
    from rt have nr: "\<not> never_returns s" by (simp add: never_returns_def hp)
    from at_remote_result [OF inv] m9 c nr show ?thesis by auto
  next
    case nrt: False
    show ?thesis
    proof (cases "2 \<le> at_cmd_len s \<and> at_cmd s ! 0 = 0x41 \<and> at_cmd s ! 1 = 0x54")
      case at: True
      then have c: "at_command ev s = unlock (at_local ev s)"
        using ready nrt by (simp add: at_command_def hp on_test_def)
      show ?thesis
      proof (cases "at_cmd s ! 2 = 0x5A \<or>
               at_cmd s ! 2 = 0x26 \<and> at_cmd s ! 3 = 0x55 \<and> str_eq (at_cmd s) 4 lit_PDATE = Some True")
        case True
        with at have nr: "never_returns s" by (simp add: never_returns_def hp)
        from m9 have "3 \<le> AT_CMD_MAXLEN ev" by simp
        from at_local_halts [OF inv this True] c nr show ?thesis
          by (auto simp: unlock_def)
      next
        case False
        with at have nr: "\<not> never_returns s" by (auto simp: never_returns_def hp)
        from at_local_ends [OF inv False] m9 pm pin obtain s' where "at_local ev s = Returns s'"
          by (cases "at_local ev s") (auto simp: ends_def)
        with c nr show ?thesis by (simp add: unlock_def)
      qed
    next
      case False
      then have nr: "\<not> never_returns s" by (auto simp: never_returns_def hp)
      from False nrt have "at_command ev s = Returns (s\<lparr>at_cmd_len := 0, at_cmd_ready := False\<rparr>)"
        using ready by (auto simp add: at_command_def hp on_test_def)
      with nr show ?thesis by simp
    qed
  qed
  from main neither show ?thesis by blast
qed

theorem dispatcher_always_unlocks_witness:
  "at_inv demo_env (cmd_state ''ATI5'') \<and> 9 \<le> AT_CMD_MAXLEN demo_env \<and>
   PARAM_MAX demo_env \<le> 255 \<and> PIN_MAX demo_env \<le> 255 \<and> at_cmd_ready (cmd_state ''ATI5'') \<and>
   \<not> never_returns (cmd_state ''ATI5'') \<and>
   (\<exists>s'. at_command demo_env (cmd_state ''ATI5'') = Returns s' \<and> at_cmd_len s' = 0 \<and>
         \<not> at_cmd_ready s')"
proof -
  let ?s = "cmd_state ''ATI5''"
  have h: "at_inv demo_env ?s" "9 \<le> AT_CMD_MAXLEN demo_env" "PARAM_MAX demo_env \<le> 255"
    "PIN_MAX demo_env \<le> 255" "at_cmd_ready ?s"
    by (simp_all add: at_inv_def cmd_state_def power_on_def bytes_def demo_env_def)
  have n: "\<not> never_returns ?s"
    by (simp add: never_returns_def has_prefix_def rd_def cmd_state_def power_on_def bytes_def)
  from dispatcher_always_unlocks [OF h] n
  have "\<exists>s'. at_command demo_env ?s = Returns s' \<and> at_cmd_len s' = 0 \<and> \<not> at_cmd_ready s'"
    by simp
  with h n show ?thesis by blast
qed

text \<open>
  C9. In a well-formed state (an array of \<open>AT_CMD_MAXLEN + 1\<close> cells with
  \<open>2 \<le> AT_CMD_MAXLEN \<le> 255\<close>, a length of at most \<open>AT_CMD_MAXLEN\<close> and the
  terminator in the last cell) every byte given to the line editor and every timer tick
  returns a well-formed state, and so does the dispatcher whenever it returns or stops in
  one of its endless loops. No operation stores outside the array: the only fault left is
  a read outside an array of fewer than ten cells.
\<close>

theorem buffer_length_bounded:
  assumes "at_inv ev s"
  shows "(\<exists>s'. at_input ev c s = Returns s' \<and> at_inv ev s' \<and>
               unat (at_cmd_len s') \<le> AT_CMD_MAXLEN ev \<and> length (at_cmd s') = AT_CMD_MAXLEN ev + 1) \<and>
         (\<exists>s'. at_timer ev s = Returns s' \<and> at_inv ev s' \<and>
               unat (at_cmd_len s') \<le> AT_CMD_MAXLEN ev \<and> length (at_cmd s') = AT_CMD_MAXLEN ev + 1) \<and>
         (case at_command ev s of
            Returns s' \<Rightarrow> at_inv ev s' \<and> unat (at_cmd_len s') \<le> AT_CMD_MAXLEN ev \<and>
                           length (at_cmd s') = AT_CMD_MAXLEN ev + 1
          | Halts s' \<Rightarrow> at_inv ev s' \<and> unat (at_cmd_len s') \<le> AT_CMD_MAXLEN ev \<and>
                           length (at_cmd s') = AT_CMD_MAXLEN ev + 1
          | Faults f \<Rightarrow> f = ReadOOB \<and> AT_CMD_MAXLEN ev < 9
          | Diverges \<Rightarrow> 256 \<le> PARAM_MAX ev \<or> 256 \<le> PIN_MAX ev)"
proof -
  from at_input_inv [OF assms, of c] have a: "\<exists>s'. at_input ev c s = Returns s' \<and> at_inv ev s' \<and>
      unat (at_cmd_len s') \<le> AT_CMD_MAXLEN ev \<and> length (at_cmd s') = AT_CMD_MAXLEN ev + 1"
    by (auto simp: at_inv_def)
  from at_timer_inv [OF assms] have b: "\<exists>s'. at_timer ev s = Returns s' \<and> at_inv ev s' \<and>
      unat (at_cmd_len s') \<le> AT_CMD_MAXLEN ev \<and> length (at_cmd s') = AT_CMD_MAXLEN ev + 1"
    by (auto simp: at_inv_def)
  from at_command_ok [OF assms] have c: "case at_command ev s of
            Returns s' \<Rightarrow> at_inv ev s' \<and> unat (at_cmd_len s') \<le> AT_CMD_MAXLEN ev \<and>
                           length (at_cmd s') = AT_CMD_MAXLEN ev + 1
          | Halts s' \<Rightarrow> at_inv ev s' \<and> unat (at_cmd_len s') \<le> AT_CMD_MAXLEN ev \<and>
                           length (at_cmd s') = AT_CMD_MAXLEN ev + 1
          | Faults f \<Rightarrow> f = ReadOOB \<and> AT_CMD_MAXLEN ev < 9
          | Diverges \<Rightarrow> 256 \<le> PARAM_MAX ev \<or> 256 \<le> PIN_MAX ev"
    by (auto simp: cmd_ok_def at_inv_def split: outcome.splits)
  from a b c show ?thesis by blast
qed

theorem buffer_length_bounded_witness:
  "at_inv demo_env (cmd_state ''ATS1=123456789AB'') \<and>
   (\<exists>s'. at_input demo_env 0x43 (cmd_state ''ATS1=123456789AB'') = Returns s' \<and>
         unat (at_cmd_len s') \<le> AT_CMD_MAXLEN demo_env \<and>
         length (at_cmd s') = AT_CMD_MAXLEN demo_env + 1) \<and>
   (\<exists>s'. at_timer demo_env (cmd_state ''ATS1=123456789AB'') = Returns s' \<and>
         unat (at_cmd_len s') \<le> AT_CMD_MAXLEN demo_env \<and>
         length (at_cmd s') = AT_CMD_MAXLEN demo_env + 1)"
proof -
  have h: "at_inv demo_env (cmd_state ''ATS1=123456789AB'')"
    by (simp add: at_inv_def cmd_state_def power_on_def bytes_def demo_env_def)
  from buffer_length_bounded [OF h, where c = "0x43"] h show ?thesis by blast
qed

subsection \<open>The remote command\<close>

lemma rt_scan_first_comma:
  "unat len < length buf \<Longrightarrow> unat i \<le> unat len \<Longrightarrow>
   \<exists>j. rt_scan buf len i = Some j \<and> unat i \<le> unat j \<and> unat j \<le> unat len \<and>
       (\<forall>k. unat i \<le> k \<and> k < unat j \<longrightarrow> buf ! k \<noteq> 0x2C) \<and>
       (unat j < unat len \<longrightarrow> buf ! unat j = 0x2C)"
proof (induction buf len i rule: rt_scan.induct)
  case (1 buf len i)
  show ?case
  proof (cases "len \<le> i")
    case True
    then have "unat len \<le> unat i" by (simp add: word_le_nat_alt)
    with True "1.prems" show ?thesis by (auto simp add: rt_scan.simps [of buf len i])
  next
    case False
    then have lt: "i < len" by simp
    then have ui: "unat i < unat len" "unat (i + 1) = unat i + 1" by unat_arith+
    with "1.prems" have r: "rd buf (unat i) = Some (buf ! unat i)" by (simp add: rd_def)
    show ?thesis
    proof (cases "buf ! unat i = 0x2C")
      case True
      with False r ui show ?thesis by (auto simp add: rt_scan.simps [of buf len i])
    next
      case c: False
      from ui have "unat (i + 1) \<le> unat len" by simp
      from "1.IH" [OF False r c "1.prems"(1) this] obtain j where
        j: "rt_scan buf len (i + 1) = Some j" "unat (i + 1) \<le> unat j" "unat j \<le> unat len"
          "\<forall>k. unat (i + 1) \<le> k \<and> k < unat j \<longrightarrow> buf ! k \<noteq> 0x2C"
          "unat j < unat len \<longrightarrow> buf ! unat j = 0x2C" by blast
      have "\<forall>k. unat i \<le> k \<and> k < unat j \<longrightarrow> buf ! k \<noteq> 0x2C"
      proof (intro allI impI)
        fix k assume k: "unat i \<le> k \<and> k < unat j"
        show "buf ! k \<noteq> 0x2C"
        proof (cases "k = unat i")
          case True
          with c show ?thesis by simp
        next
          case False
          with k ui have "unat (i + 1) \<le> k \<and> k < unat j" by simp
          with j(4) show ?thesis by blast
        qed
      qed
      moreover have "rt_scan buf len i = Some j"
        using False r c j(1) by (simp add: rt_scan.simps [of buf len i])
      ultimately show ?thesis using j(2,3,5) ui by auto
    qed
  qed
qed

lemma digit_run_update:
  "j < i \<Longrightarrow> digit_run (buf[j := v]) i = digit_run buf i"
  by (simp add: digit_run_def)

lemma ucast_of_nat_u16: "(ucast (of_nat n :: u32) :: u16) = of_nat n"
proof -
  have "take_bit 16 (take_bit 32 n) = take_bit 16 n" by simp
  then show ?thesis
    by (simp add: unsigned_of_nat word_of_nat_eq_iff del: take_bit_take_bit)
qed

text \<open>
  A terminated line of three or more characters is forwarded to the node named after the
  first comma at or after offset 3, with that comma replaced by the terminator, or to the
  broadcast address when there is no such comma; nothing but the call is added to the
  console.
\<close>

lemma remote_forwarding:
  assumes inv: "at_inv ev s" and m3: "3 \<le> AT_CMD_MAXLEN ev"
    and ready: "at_cmd_ready s"
    and rt: "at_cmd s ! 0 = 0x52" "at_cmd s ! 1 = 0x54"
    and l3: "3 \<le> unat (at_cmd_len s)"
    and nul: "at_cmd s ! unat (at_cmd_len s) = 0"
  shows "(\<forall>k. 3 \<le> k \<and> k < unat (at_cmd_len s) \<longrightarrow> at_cmd s ! k \<noteq> 0x2C) \<longrightarrow>
           (\<exists>s' r. at_command ev s = Returns s' \<and> at_cmd s' = at_cmd s \<and>
                   at_cmd_len s' = 0 \<and> \<not> at_cmd_ready s' \<and>
                   console s' = console s @ [Called (Tdm_remote_at 0xFFFF) r])"
    and "3 \<le> j \<and> j < unat (at_cmd_len s) \<and> at_cmd s ! j = 0x2C \<and>
         (\<forall>k. 3 \<le> k \<and> k < j \<longrightarrow> at_cmd s ! k \<noteq> 0x2C) \<longrightarrow>
           (\<exists>s' r. at_command ev s = Returns s' \<and> at_cmd s' = (at_cmd s)[j := 0] \<and>
                   at_cmd_len s' = 0 \<and> \<not> at_cmd_ready s' \<and>
                   console s' = console s @
                     [Called (Tdm_remote_at (of_nat (decimal_value (digit_run (at_cmd s) (j + 1))))) r])"
proof -
  let ?m = "AT_CMD_MAXLEN ev"
  from inv have m: "?m \<le> 255" and len: "length (at_cmd s) = ?m + 1"
    and l: "unat (at_cmd_len s) \<le> ?m" by (simp_all add: at_inv_def)
  from l3 have l2: "2 \<le> at_cmd_len s" by (simp add: word_le_nat_alt)
  have c: "at_command ev s = at_remote ev s"
    using ready rt l2 len m3 by (simp add: at_command_def has_prefix_eq on_test_def)
  from rt_scan_first_comma [of "at_cmd_len s" "at_cmd s" 3] len l l3 obtain i where
    i: "rt_scan (at_cmd s) (at_cmd_len s) 3 = Some i" "3 \<le> unat i" "unat i \<le> unat (at_cmd_len s)"
      "\<forall>k. 3 \<le> k \<and> k < unat i \<longrightarrow> at_cmd s ! k \<noteq> 0x2C"
      "unat i < unat (at_cmd_len s) \<longrightarrow> at_cmd s ! unat i = 0x2C" by auto
  have ri: "rd (at_cmd s) (unat i) = Some (at_cmd s ! unat i)"
    using i(3) l len by (simp add: rd_def)
  show "(\<forall>k. 3 \<le> k \<and> k < unat (at_cmd_len s) \<longrightarrow> at_cmd s ! k \<noteq> 0x2C) \<longrightarrow>
           (\<exists>s' r. at_command ev s = Returns s' \<and> at_cmd s' = at_cmd s \<and>
                   at_cmd_len s' = 0 \<and> \<not> at_cmd_ready s' \<and>
                   console s' = console s @ [Called (Tdm_remote_at 0xFFFF) r])"
  proof
    assume none: "\<forall>k. 3 \<le> k \<and> k < unat (at_cmd_len s) \<longrightarrow> at_cmd s ! k \<noteq> 0x2C"
    have "unat i = unat (at_cmd_len s)"
    proof (rule ccontr)
      assume "unat i \<noteq> unat (at_cmd_len s)"
      with i(3) have lt: "unat i < unat (at_cmd_len s)" by simp
      with i(5) have "at_cmd s ! unat i = 0x2C" by simp
      with none i(2) lt show False by blast
    qed
    with nul have "at_cmd s ! unat i \<noteq> 0x2C" by simp
    then show "\<exists>s' r. at_command ev s = Returns s' \<and> at_cmd s' = at_cmd s \<and>
                   at_cmd_len s' = 0 \<and> \<not> at_cmd_ready s' \<and>
                   console s' = console s @ [Called (Tdm_remote_at 0xFFFF) r]"
      by (simp add: c at_remote_def i(1) ri on_char_def Let_def call_collab_def split_def emit_def)
  qed
  show "3 \<le> j \<and> j < unat (at_cmd_len s) \<and> at_cmd s ! j = 0x2C \<and>
         (\<forall>k. 3 \<le> k \<and> k < j \<longrightarrow> at_cmd s ! k \<noteq> 0x2C) \<longrightarrow>
           (\<exists>s' r. at_command ev s = Returns s' \<and> at_cmd s' = (at_cmd s)[j := 0] \<and>
                   at_cmd_len s' = 0 \<and> \<not> at_cmd_ready s' \<and>
                   console s' = console s @
                     [Called (Tdm_remote_at (of_nat (decimal_value (digit_run (at_cmd s) (j + 1))))) r])"
  proof
    assume a: "3 \<le> j \<and> j < unat (at_cmd_len s) \<and> at_cmd s ! j = 0x2C \<and>
         (\<forall>k. 3 \<le> k \<and> k < j \<longrightarrow> at_cmd s ! k \<noteq> 0x2C)"
    have ij: "unat i = j"
    proof (rule ccontr)
      assume ne: "unat i \<noteq> j"
      show False
      proof (cases "unat i < j")
        case True
        with a have "unat i < unat (at_cmd_len s)" by simp
        with i(5) have "at_cmd s ! unat i = 0x2C" by simp
        with a i(2) True show False by blast
      next
        case False
        with ne have "j < unat i" by simp
        with i(4) a show False by blast
      qed
    qed
    let ?b = "(at_cmd s)[j := 0]"
    let ?s2 = "s\<lparr>at_cmd := ?b\<rparr>"
    have jm: "j < ?m" using a l by simp
    have inv2: "at_inv ev ?s2" using at_inv_write0 [OF inv, of j] jm len by simp
    have "(of_nat (unat i) :: u8) = i" by simp
    with ij have i1: "(i + 1) = of_nat (j + 1)" by simp
    from at_parse_number_at [OF inv2, of "j + 1"] jm
    have p: "at_parse_number (?s2\<lparr>idx := of_nat (j + 1)\<rparr>) =
        Returns (of_nat (decimal_value (digit_run (at_cmd s) (j + 1))),
                 ?s2\<lparr>idx := of_nat (j + 1 + length (digit_run (at_cmd s) (j + 1)))\<rparr>)"
      by (simp add: digit_run_update)
    have w: "wr (at_cmd s) j 0 = Some ?b" using jm len by (simp add: wr_def)
    have rj: "rd (at_cmd s) j = Some 0x2C" using a jm len by (simp add: rd_def)
    have st: "s\<lparr>idx := i, at_cmd := ?b, idx := i + 1\<rparr> = ?s2\<lparr>idx := of_nat (j + 1)\<rparr>"
      using i1 by simp
    let ?K = "\<lambda>n s2. Returns ((snd (call_collab ev (Tdm_remote_at (ucast n)) s2))
                              \<lparr>at_cmd_len := 0, at_cmd_ready := False\<rparr>)"
    let ?n = "of_nat (decimal_value (digit_run (at_cmd s) (j + 1))) :: u32"
    let ?s3 = "?s2\<lparr>idx := of_nat (j + 1 + length (digit_run (at_cmd s) (j + 1)))\<rparr>"
    have "at_remote ev s =
        on_number (at_parse_number (s\<lparr>idx := i, at_cmd := ?b, idx := i + 1\<rparr>)) ?K"
      by (simp add: at_remote_def i(1) ij rj on_char_def Let_def w)
    also have "\<dots> = on_number (at_parse_number (?s2\<lparr>idx := of_nat (j + 1)\<rparr>)) ?K"
      by (simp only: st)
    also have "\<dots> = ?K ?n ?s3"
      by (simp only: p on_number_def outcome.case prod.case)
    finally have r: "at_command ev s = ?K ?n ?s3" by (simp only: c)
    show "\<exists>s' r. at_command ev s = Returns s' \<and> at_cmd s' = ?b \<and>
                   at_cmd_len s' = 0 \<and> \<not> at_cmd_ready s' \<and>
                   console s' = console s @
                     [Called (Tdm_remote_at (of_nat (decimal_value (digit_run (at_cmd s) (j + 1))))) r]"
      by (simp add: r call_collab_def split_def Let_def emit_def ucast_of_nat_u16)
  qed
qed

text \<open>
  C7. A ready line that begins "RT" is to be forwarded to the node named after the first
  comma found from offset 3 on, and to the broadcast address 0xFFFF when the line holds no
  such comma, without an OK or ERROR reply. The code breaks this for the line "RT" of
  length 2: the scan starts at offset 3, beyond the end of the line, and the test for the
  comma then reads cell 3, which still holds what an earlier line left there. After the
  line "ATS,7" (answered ERROR) the line "RT", which holds no comma, is sent to node 7 and
  not to the broadcast address.
\<close>

theorem remote_stale_comma:
  "session demo_env [''ATS,7'', ''RT''] (power_on\<lparr>at_mode_active := True\<rparr>) =
     Returns (power_on\<lparr>at_cmd := bytes ''RT'' @ [0, 0] @ bytes ''7'' @ replicate 12 0, idx := 5,
        at_mode_active := True,
        console := map Putchar (bytes ''ATS,7'') @ [Putchar 0x0A, Print_ERROR 1] @
                   map Putchar (bytes ''RT'') @ [Putchar 0x0A, Called (Tdm_remote_at 7) 0]\<rparr>)"
  by code_simp


end
